theory Spec2Isabelle
  imports
    Main
    "HOL-Library.Char_ord"
    "HOL-Library.List_Lexorder"
    "HOL-Library.Product_Lexorder"
    "HOL-Library.Multiset"
begin

section \<open>Strings\<close>

text \<open>
  A Go string is modelled as its byte sequence (\<open>string\<close>, a \<open>char list\<close>), which
  for a text is its UTF-8 encoding. The helpers of package \<open>strings\<close> that main.go calls
  are written out below. White space is the white space of Unicode, as the library has
  it. The case mapping \<open>ToLower\<close> is the one of ASCII: the library also maps the letters
  beyond ASCII, by tables of package \<open>unicode\<close> that are no part of the repository, so
  \<open>ToLower\<close> agrees with it on every ASCII text, and where a property ranges over any
  text the mapping is an argument (see the tag extractor).
\<close>

definition is_digit :: "char \<Rightarrow> bool" where
  "is_digit c = (c \<in> set ''0123456789'')"

text \<open>The class \<open>\w\<close> of Go's regexp: ASCII letters, digits and the underscore.\<close>

definition is_word :: "char \<Rightarrow> bool" where
  "is_word c =
     (c \<in> set ''0123456789abcdefghijklmnopqrstuvwxyzABCDEFGHIJKLMNOPQRSTUVWXYZ_'')"

definition lower_char :: "char \<Rightarrow> char" where
  "lower_char c =
     (case map_of (zip ''ABCDEFGHIJKLMNOPQRSTUVWXYZ'' ''abcdefghijklmnopqrstuvwxyz'') c of
        Some l \<Rightarrow> l
      | None \<Rightarrow> c)"

text \<open>\<open>strings.ToLower\<close>\<close>

definition ToLower :: "string \<Rightarrow> string" where
  "ToLower s = map lower_char s"

text \<open>
  The white space of \<open>unicode.IsSpace\<close>, each character as its bytes in UTF-8: U+0009
  to U+000D, U+0020, U+0085, U+00A0, U+1680, U+2000 to U+200A, U+2028, U+2029, U+202F,
  U+205F and U+3000.
\<close>

definition spaces :: "string list" where
  "spaces =
     [[CHR 0x09], [CHR 0x0A], [CHR 0x0B], [CHR 0x0C], [CHR 0x0D], [CHR 0x20],
      [CHR 0xC2, CHR 0x85], [CHR 0xC2, CHR 0xA0], [CHR 0xE1, CHR 0x9A, CHR 0x80],
      [CHR 0xE2, CHR 0x80, CHR 0x80], [CHR 0xE2, CHR 0x80, CHR 0x81],
      [CHR 0xE2, CHR 0x80, CHR 0x82], [CHR 0xE2, CHR 0x80, CHR 0x83],
      [CHR 0xE2, CHR 0x80, CHR 0x84], [CHR 0xE2, CHR 0x80, CHR 0x85],
      [CHR 0xE2, CHR 0x80, CHR 0x86], [CHR 0xE2, CHR 0x80, CHR 0x87],
      [CHR 0xE2, CHR 0x80, CHR 0x88], [CHR 0xE2, CHR 0x80, CHR 0x89],
      [CHR 0xE2, CHR 0x80, CHR 0x8A], [CHR 0xE2, CHR 0x80, CHR 0xA8],
      [CHR 0xE2, CHR 0x80, CHR 0xA9], [CHR 0xE2, CHR 0x80, CHR 0xAF],
      [CHR 0xE2, CHR 0x81, CHR 0x9F], [CHR 0xE3, CHR 0x80, CHR 0x80]]"

text \<open>The white space character a text begins with, and the one it ends with. A byte
  that is no part of such a character is no white space: the library reads it as
  itself, or as an error of the encoding.\<close>

definition spacePrefix :: "string \<Rightarrow> string option" where
  "spacePrefix s = find (\<lambda>p. take (length p) s = p) spaces"

definition spaceSuffix :: "string \<Rightarrow> string option" where
  "spaceSuffix s = find (\<lambda>p. drop (length s - length p) s = p) spaces"

text \<open>\<open>strings.TrimSpace\<close>: the white space at the beginning goes, then the white
  space at the end.\<close>

function trimLeft :: "string \<Rightarrow> string" where
  "trimLeft s = (case spacePrefix s of None \<Rightarrow> s | Some p \<Rightarrow> trimLeft (drop (length p) s))"
  by pat_completeness auto
termination
proof (relation "measure length")
  show "wf (measure length)" by simp
next
  fix s p assume "spacePrefix s = Some p"
  then have "p \<in> set spaces" "take (length p) s = p"
    by (auto simp: spacePrefix_def find_Some_iff)
  moreover have "\<forall>q \<in> set spaces. q \<noteq> []"
    by (simp add: spaces_def)
  ultimately have p: "p \<noteq> []" "take (length p) s = p" by blast+
  then have "s \<noteq> []" by auto
  then show "(drop (length p) s, s) \<in> measure length" using p(1) by simp
qed

function trimRight :: "string \<Rightarrow> string" where
  "trimRight s =
     (case spaceSuffix s of None \<Rightarrow> s | Some p \<Rightarrow> trimRight (take (length s - length p) s))"
  by pat_completeness auto
termination
proof (relation "measure length")
  show "wf (measure length)" by simp
next
  fix s p assume "spaceSuffix s = Some p"
  then have "p \<in> set spaces" "drop (length s - length p) s = p"
    by (auto simp: spaceSuffix_def find_Some_iff)
  moreover have "\<forall>q \<in> set spaces. q \<noteq> []"
    by (simp add: spaces_def)
  ultimately have p: "p \<noteq> []" "drop (length s - length p) s = p" by blast+
  then have "s \<noteq> []" by auto
  then show "(take (length s - length p) s, s) \<in> measure length" using p(1) by simp
qed

definition TrimSpace :: "string \<Rightarrow> string" where
  "TrimSpace s = trimRight (trimLeft s)"

text \<open>
  \<open>strings.Split(s, sep)\<close> for a separator of one byte: the parts between the
  separators, in order. A string without the separator is one part, the empty string
  too.
\<close>

fun Split :: "string \<Rightarrow> char \<Rightarrow> string list" where
  "Split [] sep = [[]]"
| "Split (c # cs) sep =
     (if c = sep then [] # Split cs sep
      else (case Split cs sep of
              p # ps \<Rightarrow> (c # p) # ps
            | [] \<Rightarrow> [[c]]))"

text \<open>\<open>strings.Join\<close>\<close>

fun Join :: "string list \<Rightarrow> string \<Rightarrow> string" where
  "Join [] sep = []"
| "Join [p] sep = p"
| "Join (p # q # ps) sep = p @ sep @ Join (q # ps) sep"

text \<open>\<open>strings.HasPrefix(s, "+")\<close>\<close>

definition HasPrefix :: "string \<Rightarrow> string \<Rightarrow> bool" where
  "HasPrefix s p = (take (length p) s = p)"

section \<open>Errors\<close>

text \<open>
  main.go builds its errors with \<open>fmt.Errorf\<close> and prints them before
  \<open>os.Exit(1)\<close>. Each constructor stands for one message and carries the text the
  message echoes:
  \<^item> \<open>InvalidDay\<close>: "invalid day: %s";
  \<^item> \<open>InvalidDate\<close>: "invalid date format: %s";
  \<^item> \<open>InvalidTimeRange\<close>: "invalid time range: %s (expected HH:MM-HH:MM)";
  \<^item> \<open>InvalidTimeFormat\<close>: "invalid time format: %s (expected HH:MM-HH:MM)";
  \<^item> \<open>NotFound\<close>: "Block not found: %s";
  \<^item> \<open>MissingArgument\<close>: "description required", "note text required" and the usage
    lines;
  \<^item> \<open>StoreError\<close>: an error of the database driver ("Error adding block: %v").
\<close>

datatype error =
    InvalidDay string
  | InvalidDate string
  | InvalidTimeRange string
  | InvalidTimeFormat string
  | NotFound string
  | MissingArgument
  | StoreError

section \<open>The time-range parser\<close>

text \<open>The regular expression \<open>^\d{1,2}:\d{2}$\<close> of \<open>parseTimeRange\<close>.\<close>

fun timeRegex :: "string \<Rightarrow> bool" where
  "timeRegex [h, c, m1, m2] =
     (is_digit h \<and> c = CHR '':'' \<and> is_digit m1 \<and> is_digit m2)"
| "timeRegex [h1, h2, c, m1, m2] =
     (is_digit h1 \<and> is_digit h2 \<and> c = CHR '':'' \<and> is_digit m1 \<and> is_digit m2)"
| "timeRegex s = False"

text \<open>The normalisation at the end of \<open>parseTimeRange\<close>: a clock of four bytes gets a
  leading zero.\<close>

definition pad_clock :: "string \<Rightarrow> string" where
  "pad_clock s = (if length s = 4 then CHR ''0'' # s else s)"

definition parseTimeRange :: "string \<Rightarrow> error + (string \<times> string)" where
  "parseTimeRange input =
     (case Split input (CHR ''-'') of
        [p0, p1] \<Rightarrow>
          (let start = TrimSpace p0; end = TrimSpace p1 in
           if \<not> timeRegex start \<or> \<not> timeRegex end then Inl (InvalidTimeFormat input)
           else Inr (pad_clock start, pad_clock end))
      | _ \<Rightarrow> Inl (InvalidTimeRange input))"

text \<open>The regular expression \<open>^\d{1,2}:\d{2}-\d{1,2}:\d{2}$\<close> of \<open>isTimeRange\<close>: the
  hours before the dash have one digit (the dash is at index 4) or two (index 5).\<close>

definition range_at :: "nat \<Rightarrow> string \<Rightarrow> bool" where
  "range_at n s =
     (n < length s \<and> timeRegex (take n s) \<and> s ! n = CHR ''-'' \<and> timeRegex (drop (Suc n) s))"

definition isTimeRange :: "string \<Rightarrow> bool" where
  "isTimeRange s = (range_at 4 s \<or> range_at 5 s)"

section \<open>The tag extractor\<close>

text \<open>
  \<open>hashtagRe = #(\w+)\<close>. \<open>FindAllStringSubmatch\<close> returns the leftmost matches, none
  overlapping, each as long as it can be: at a \<open>#\<close> followed by a word byte the match is
  the \<open>#\<close> and the whole run of word bytes, and the search goes on after the run; any
  other byte is skipped. \<open>hashtags\<close> is the list of the groups \<open>m[1]\<close>.
\<close>

function hashtags :: "string \<Rightarrow> string list" where
  "hashtags [] = []"
| "hashtags (c # cs) =
     (if c = CHR ''#'' \<and> cs \<noteq> [] \<and> is_word (hd cs)
      then takeWhile is_word cs # hashtags (dropWhile is_word cs)
      else hashtags cs)"
  by pat_completeness auto
termination
  by (relation "measure length") (auto intro: le_imp_less_Suc length_dropWhile_le)

text \<open>\<open>hashtagRe.ReplaceAllString(desc, "")\<close>: the same matches, cut out.\<close>

function strip_hashtags :: "string \<Rightarrow> string" where
  "strip_hashtags [] = []"
| "strip_hashtags (c # cs) =
     (if c = CHR ''#'' \<and> cs \<noteq> [] \<and> is_word (hd cs)
      then strip_hashtags (dropWhile is_word cs)
      else c # strip_hashtags cs)"
  by pat_completeness auto
termination
  by (relation "measure length") (auto intro: le_imp_less_Suc length_dropWhile_le)

text \<open>The loop "Dedupe tags": \<open>seen\<close> is the map of the tags met so far,
  \<open>uniqueTags\<close> the slice the loop appends to.\<close>

fun dedupe :: "string list \<Rightarrow> string set \<Rightarrow> string list \<Rightarrow> string list" where
  "dedupe [] seen uniqueTags = uniqueTags"
| "dedupe (t # ts) seen uniqueTags =
     (if t \<notin> seen then dedupe ts (insert t seen) (uniqueTags @ [t])
      else dedupe ts seen uniqueTags)"

text \<open>\<open>tagList\<close>: the flag's tag first when there is one, then the hashtags, all in
  lower case.\<close>

definition tagList :: "(string \<Rightarrow> string) \<Rightarrow> string \<Rightarrow> string \<Rightarrow> string list" where
  "tagList lower desc flagTag =
     (if flagTag \<noteq> [] then [lower flagTag] else []) @ map lower (hashtags desc)"

definition uniqueTags :: "(string \<Rightarrow> string) \<Rightarrow> string \<Rightarrow> string \<Rightarrow> string list" where
  "uniqueTags lower desc flagTag = dedupe (tagList lower desc flagTag) {} []"

text \<open>
  \<open>extractTags\<close>. Its first argument \<open>lower\<close> stands for \<open>strings.ToLower\<close>, whose
  tables for the letters beyond ASCII are not in the repository: what is proved of
  \<open>extractTags lower\<close> for every \<open>lower\<close> holds of the program whatever these tables
  say. On ASCII text \<open>strings.ToLower\<close> is \<open>ToLower\<close>.
\<close>

definition extractTags :: "(string \<Rightarrow> string) \<Rightarrow> string \<Rightarrow> string \<Rightarrow> string \<times> string" where
  "extractTags lower desc flagTag =
     (let cleanDesc = TrimSpace (strip_hashtags desc);
          us = uniqueTags lower desc flagTag;
          tags = (if length us > 0 then Join us '','' else [])
      in (cleanDesc, tags))"

text \<open>
  What the specification asks of the tag list, written from its words: of equal tags
  the first stays where it is, the later ones go.
\<close>

function keep_first :: "'a list \<Rightarrow> 'a list" where
  "keep_first [] = []"
| "keep_first (x # xs) = x # keep_first (filter (\<lambda>y. y \<noteq> x) xs)"
  by pat_completeness auto
termination
  by (relation "measure length") (auto intro: le_imp_less_Suc)

text \<open>
  A text with hashtags, written from the words of the specification: pieces of text
  without hashtag, each followed by \<open>#\<close> and a tag, then a last piece. \<open>tagged\<close> puts the
  text together, left to right. A piece is \<open>plain\<close> when no \<open>#\<close> in it is followed by a
  word byte; a tag is a run of word bytes that is not empty and \<open>stops\<close>: the text after
  it is empty or starts with a byte that is no word byte.
\<close>

fun tagged :: "(string \<times> string) list \<Rightarrow> string \<Rightarrow> string" where
  "tagged [] rest = rest"
| "tagged ((piece, tag) # more) rest = piece @ CHR ''#'' # tag @ tagged more rest"

fun plain :: "string \<Rightarrow> bool" where
  "plain (c # d # cs) = (\<not> (c = CHR ''#'' \<and> is_word d) \<and> plain (d # cs))"
| "plain cs = True"

definition stops :: "string \<Rightarrow> bool" where
  "stops s = (s = [] \<or> \<not> is_word (hd s))"

fun tags_ok :: "(string \<times> string) list \<Rightarrow> string \<Rightarrow> bool" where
  "tags_ok [] rest = plain rest"
| "tags_ok ((piece, tag) # more) rest =
     (plain piece \<and> tag \<noteq> [] \<and> list_all is_word tag \<and> stops (tagged more rest) \<and>
      tags_ok more rest)"

section \<open>Calendar dates: the part of Go's package \<open>time\<close> that main.go calls\<close>

text \<open>
  main.go reads of a \<open>time.Time\<close> only its calendar date (\<open>ISOWeek\<close>, \<open>Weekday\<close>,
  \<open>Format("Jan 2")\<close>). A calendar date is counted by the number of its day in the
  proleptic Gregorian calendar, day 0 being Monday, 1 January of year 1: this is the
  type \<open>Time\<close> of the day resolver, which reads the clock (\<open>time.Now\<close>) and parses dates
  (\<open>time.Parse\<close>, in UTC). The week arithmetic builds its times with \<open>time.Date\<close> in
  \<open>time.Local\<close> and moves them with \<open>AddDate\<close>, and there the zone decides which instant
  a local midnight is: its times are instants (\<open>Instant\<close>, below) and the zone is an
  argument. The functions follow the library: \<open>daysSinceEpoch\<close> and \<open>absDate\<close> count in
  cycles of 400, 100, 4 and 1 years.
\<close>

type_synonym Time = int

definition isLeap :: "int \<Rightarrow> bool" where
  "isLeap year = (year mod 4 = 0 \<and> (year mod 100 \<noteq> 0 \<or> year mod 400 = 0))"

text \<open>\<open>daysBefore[m]\<close>: the days of a common year before month \<open>m + 1\<close>.\<close>

definition daysBefore :: "nat \<Rightarrow> int" where
  "daysBefore m = [0, 31, 59, 90, 120, 151, 181, 212, 243, 273, 304, 334, 365] ! m"

definition daysIn :: "nat \<Rightarrow> int \<Rightarrow> int" where
  "daysIn m year =
     (if m = 2 \<and> isLeap year then 29 else daysBefore m - daysBefore (m - 1))"

text \<open>\<open>daysSinceEpoch\<close>: the days from 1 January of year 1 to 1 January of \<open>year\<close>.\<close>

definition daysSinceEpoch :: "int \<Rightarrow> int" where
  "daysSinceEpoch year =
     (let y0 = year - 1;
          n400 = y0 div 400; y1 = y0 - 400 * n400;
          n100 = y1 div 100; y2 = y1 - 100 * n100;
          n4 = y2 div 4; y3 = y2 - 4 * n4
      in 146097 * n400 + 36524 * n100 + 1461 * n4 + 365 * y3)"

text \<open>The day that \<open>time.Date(year, month, day, ...)\<close> counts before it looks at the zone
  (and the whole of \<open>time.Parse\<close> of a date, which is in UTC). A month outside 1..12 is
  carried into the year, a day outside the month into the day count, as the library
  does. The library counts in 64 bits: the count below is the library's for the years
  whose seconds fit, which is where it is used in the properties.\<close>

definition Date :: "int \<Rightarrow> int \<Rightarrow> int \<Rightarrow> Time" where
  "Date year month day =
     (let m0 = month - 1;
          y = year + m0 div 12;
          m = nat (m0 mod 12)
      in daysSinceEpoch y + daysBefore m
         + (if isLeap y \<and> 3 \<le> m + 1 then 1 else 0)
         + (day - 1))"

text \<open>The year and the day of the year (from 0) of a day count: the first half of
  \<open>absDate\<close>. In the last year of a cycle of 400 or of 4 years the quotient 4 is cut
  back to 3 (\<open>n -= n >> 2\<close>).\<close>

definition absYear :: "Time \<Rightarrow> int \<times> int" where
  "absYear t =
     (let n400 = t div 146097; d1 = t - 146097 * n400;
          q100 = d1 div 36524; n100 = (if q100 = 4 then 3 else q100);
          d2 = d1 - 36524 * n100;
          n4 = d2 div 1461; d3 = d2 - 1461 * n4;
          q1 = d3 div 365; n1 = (if q1 = 4 then 3 else q1);
          yday = d3 - 365 * n1
      in (400 * n400 + 100 * n100 + 4 * n4 + n1 + 1, yday))"

text \<open>The month and the day of the month of a day of the year: the second half of
  \<open>absDate\<close>. \<open>monthOfDay\<close> is its part for a day of a common year: the estimate
  \<open>day / 31\<close> of the month is right or one too small.\<close>

definition monthOfDay :: "int \<Rightarrow> nat \<times> int" where
  "monthOfDay day =
     (let month = nat (day div 31);
          end = daysBefore (month + 1)
      in if day \<ge> end then (month + 2, day - end + 1)
         else (month + 1, day - daysBefore month + 1))"

definition monthDay :: "int \<Rightarrow> int \<Rightarrow> nat \<times> int" where
  "monthDay year yday =
     (if isLeap year \<and> yday = 31 + 29 - 1 then (2, 29)
      else monthOfDay (if isLeap year \<and> yday > 31 + 29 - 1 then yday - 1 else yday))"

text \<open>\<open>t.Date()\<close>: year, month and day.\<close>

definition civil :: "Time \<Rightarrow> int \<times> nat \<times> int" where
  "civil t = (let (year, yday) = absYear t; (month, day) = monthDay year yday
              in (year, month, day))"

text \<open>
  A \<open>time.Time\<close> with its clock: the seconds since 0001-01-01 00:00:00 UTC. A
  \<open>*time.Location\<close> is its method \<open>lookup\<close>: for an instant, the offset of local time
  from UTC in seconds, and the instants where the period of this offset starts and ends.
\<close>

type_synonym Instant = int

type_synonym Location = "Instant \<Rightarrow> int \<times> Instant \<times> Instant"

text \<open>The local date and the local time of day of an instant (\<open>t.abs()\<close>).\<close>

definition localDay :: "Location \<Rightarrow> Instant \<Rightarrow> Time" where
  "localDay loc t = (t + fst (loc t)) div 86400"

definition localClock :: "Location \<Rightarrow> Instant \<Rightarrow> int" where
  "localClock loc t = (t + fst (loc t)) mod 86400"

text \<open>An \<open>int\<close> of Go has 64 bits, and its arithmetic wraps.\<close>

definition wrap64 :: "int \<Rightarrow> int" where
  "wrap64 x = (x + 2 ^ 63) mod 2 ^ 64 - 2 ^ 63"

text \<open>
  \<open>time.Date(year, month, day, hour, min, sec, 0, loc)\<close>, with \<open>clock\<close> the seconds of
  \<open>hour:min:sec\<close>. The wall time is first read as if it were UTC (\<open>unix\<close>) and the zone
  looked up there; when the instant this offset gives is outside the period of the
  offset, the zone is looked up again at that instant. A local time that a change of
  offset skips is so resolved with the offset after the change.
\<close>

definition DateIn :: "Location \<Rightarrow> int \<Rightarrow> int \<Rightarrow> int \<Rightarrow> int \<Rightarrow> Instant" where
  "DateIn loc year month day clock =
     (let unix = 86400 * Date year month day + clock;
          (offset, start, end) = loc unix
      in if offset \<noteq> 0 then
           (let utc = unix - offset;
                offset' = (if utc < start \<or> utc \<ge> end then fst (loc utc) else offset)
            in unix - offset')
         else unix)"

text \<open>\<open>t.AddDate(0, 0, days)\<close> reads the local date and clock of \<open>t\<close> and calls \<open>Date\<close>
  with the day moved, in the location of \<open>t\<close>.\<close>

definition AddDate :: "Location \<Rightarrow> Instant \<Rightarrow> int \<Rightarrow> Instant" where
  "AddDate loc t days =
     (let (year, month, day) = civil (localDay loc t)
      in DateIn loc year (int month) (wrap64 (day + days)) (localClock loc t))"

text \<open>\<open>t.Weekday()\<close>: Sunday is 0, Monday 1, Saturday 6.\<close>

definition Weekday :: "Time \<Rightarrow> int" where
  "Weekday t = (t + 1) mod 7"

definition weekdayString :: "int \<Rightarrow> string" where
  "weekdayString d =
     [''Sunday'', ''Monday'', ''Tuesday'', ''Wednesday'', ''Thursday'', ''Friday'',
      ''Saturday''] ! nat d"

text \<open>\<open>t.ISOWeek()\<close>: the year and the week of the Thursday of the week of \<open>t\<close>.\<close>

definition ISOWeek :: "Time \<Rightarrow> int \<times> int" where
  "ISOWeek t =
     (let d0 = 4 - Weekday t;
          d = (if d0 = 4 then - 3 else d0);
          (year, yday) = absYear (t + d)
      in (year, yday div 7 + 1))"

text \<open>\<open>t.Format("Jan 2")\<close>\<close>

definition monthAbbrev :: "nat \<Rightarrow> string" where
  "monthAbbrev m =
     [''Jan'', ''Feb'', ''Mar'', ''Apr'', ''May'', ''Jun'', ''Jul'', ''Aug'', ''Sep'', ''Oct'',
      ''Nov'', ''Dec''] ! (m - 1)"

text \<open>
  The calendar, in its own words: a date is real when its month is one of the twelve
  and its day is in the month, and the day after a date is the next day of the month,
  or the first of the next month, or the first of January of the next year.
\<close>

definition validDate :: "int \<times> nat \<times> int \<Rightarrow> bool" where
  "validDate c = (case c of (year, month, day) \<Rightarrow>
     1 \<le> month \<and> month \<le> 12 \<and> 1 \<le> day \<and> day \<le> daysIn month year)"

definition nextDay :: "int \<times> nat \<times> int \<Rightarrow> int \<times> nat \<times> int" where
  "nextDay c = (case c of (year, month, day) \<Rightarrow>
     if day < daysIn month year then (year, month, day + 1)
     else if month < 12 then (year, month + 1, 1)
     else (year + 1, 1, 1))"

text \<open>The days of a year before the end of its month \<open>k\<close>: \<open>daysBefore\<close> with the
  leap day.\<close>

definition cum :: "int \<Rightarrow> nat \<Rightarrow> int" where
  "cum y k = daysBefore k + (if isLeap y \<and> 2 \<le> k then 1 else 0)"

section \<open>Formatting and scanning integers\<close>

definition digit_char :: "nat \<Rightarrow> char" where
  "digit_char n = ''0123456789'' ! n"

function digits :: "nat \<Rightarrow> string" where
  "digits n = (if n < 10 then [digit_char n] else digits (n div 10) @ [digit_char (n mod 10)])"
  by pat_completeness auto
termination
  by (relation "measure id") auto

text \<open>The verb \<open>%d\<close>.\<close>

definition fmt_d :: "int \<Rightarrow> string" where
  "fmt_d i = (if i < 0 then CHR ''-'' # digits (nat (- i)) else digits (nat i))"

text \<open>The verb \<open>%02d\<close>: zeros on the left up to a width of two, the sign counted.\<close>

definition fmt_02d :: "int \<Rightarrow> string" where
  "fmt_02d i = (if 0 \<le> i \<and> i < 10 then CHR ''0'' # fmt_d i else fmt_d i)"

text \<open>\<open>fmt.Sprintf("%d-W%02d", year, isoWeek)\<close>\<close>

definition weekKey :: "int \<times> int \<Rightarrow> string" where
  "weekKey yw = fmt_d (fst yw) @ ''-W'' @ fmt_02d (snd yw)"

definition dateFormat :: "Time \<Rightarrow> string" where
  "dateFormat t = (let (year, month, day) = civil t in monthAbbrev month @ '' '' @ fmt_d day)"

definition digit_val :: "char \<Rightarrow> int" where
  "digit_val c = int (length (takeWhile (\<lambda>d. d \<noteq> c) ''0123456789''))"

text \<open>The value of a run of decimal digits.\<close>

definition atoi :: "string \<Rightarrow> int" where
  "atoi s = foldl (\<lambda>n c. 10 * n + digit_val c) 0 s"

text \<open>
  \<open>SkipSpace\<close> of the scanner of \<open>fmt.Sscanf\<close>: white space is skipped, a newline is an
  error.
\<close>

function SkipSpace :: "string \<Rightarrow> string option" where
  "SkipSpace s =
     (if take 1 s = [CHR 0x0A] then None
      else (case spacePrefix s of
              None \<Rightarrow> Some s
            | Some p \<Rightarrow> SkipSpace (drop (length p) s)))"
  by pat_completeness auto
termination
proof (relation "measure length")
  show "wf (measure length)" by simp
next
  fix s p assume "spacePrefix s = Some p"
  then have "p \<in> set spaces" "take (length p) s = p"
    by (auto simp: spacePrefix_def find_Some_iff)
  moreover have "\<forall>q \<in> set spaces. q \<noteq> []"
    by (simp add: spaces_def)
  ultimately have p: "p \<noteq> []" "take (length p) s = p" by blast+
  then have "s \<noteq> []" by auto
  then show "(drop (length p) s, s) \<in> measure length" using p(1) by simp
qed

text \<open>
  One \<open>%d\<close> of \<open>fmt.Sscanf\<close> into an \<open>int\<close>: white space is skipped, then come an
  optional sign and the longest run of digits and underscores. An empty run, an
  underscore in the run (the conversion in base 10 refuses it) or a value outside 64
  bits is an error. The result is the value and the rest of the input.
\<close>

definition scan_d :: "string \<Rightarrow> (int \<times> string) option" where
  "scan_d s =
     (case SkipSpace s of
        None \<Rightarrow> None
      | Some s0 \<Rightarrow>
          (let (neg, s1) = (case s0 of
                              c # cs \<Rightarrow> if c = CHR ''-'' then (True, cs)
                                        else if c = CHR ''+'' then (False, cs) else (False, s0)
                            | [] \<Rightarrow> (False, s0));
               ds = takeWhile (\<lambda>c. is_digit c \<or> c = CHR ''_'') s1;
               v = (if neg then - atoi ds else atoi ds)
           in if ds = [] \<or> CHR ''_'' \<in> set ds \<or> v < - (2 ^ 63) \<or> 2 ^ 63 \<le> v then None
              else Some (v, dropWhile (\<lambda>c. is_digit c \<or> c = CHR ''_'') s1)))"

text \<open>
  \<open>var year, weekNum int; fmt.Sscanf(week, "%d-W%d", &year, &weekNum)\<close>: the error
  is dropped, so a variable that was not scanned keeps its zero.
\<close>

definition scanWeek :: "string \<Rightarrow> int \<times> int" where
  "scanWeek week =
     (case scan_d week of
        None \<Rightarrow> (0, 0)
      | Some (year, r) \<Rightarrow>
          if take 2 r \<noteq> ''-W'' then (year, 0)
          else (case scan_d (drop 2 r) of
                  None \<Rightarrow> (year, 0)
                | Some (weekNum, _) \<Rightarrow> (year, weekNum)))"

section \<open>The day resolver\<close>

definition days :: "string list" where
  "days = [''monday'', ''tuesday'', ''wednesday'', ''thursday'', ''friday'', ''saturday'',
           ''sunday'']"

text \<open>\<open>dayMap\<close>: each name of \<open>days\<close> with its index.\<close>

definition dayMap :: "string \<rightharpoonup> nat" where
  "dayMap = map_of (zip days [0 ..< length days])"

text \<open>The regular expression \<open>^\d{4}-\d{2}-\d{2}$\<close>.\<close>

fun dateRegex :: "string \<Rightarrow> bool" where
  "dateRegex [y1, y2, y3, y4, s1, m1, m2, s2, d1, d2] =
     (is_digit y1 \<and> is_digit y2 \<and> is_digit y3 \<and> is_digit y4 \<and> s1 = CHR ''-'' \<and>
      is_digit m1 \<and> is_digit m2 \<and> s2 = CHR ''-'' \<and> is_digit d1 \<and> is_digit d2)"
| "dateRegex s = False"

text \<open>
  \<open>time.Parse("2006-01-02", input)\<close> on a string that matches the expression above:
  the month must be in 1..12 and the day in the month, else the library returns an
  error ("month out of range", "day out of range").
\<close>

definition parseDate :: "string \<Rightarrow> Time option" where
  "parseDate input =
     (let year = atoi (take 4 input);
          month = atoi (take 2 (drop 5 input));
          day = atoi (take 2 (drop 8 input))
      in if month \<le> 0 \<or> 12 < month then None
         else if day < 1 \<or> day > daysIn (nat month) year then None
         else Some (Date year month day))"

text \<open>The increment of \<open>parseDay\<close> and of \<open>getWeek\<close> (flag \<open>next\<close>), and the decrement of
  \<open>getWeek\<close> (flag \<open>last\<close>), on the pair of the year and the week.\<close>

definition nextWeek :: "int \<times> int \<Rightarrow> int \<times> int" where
  "nextWeek yw =
     (let year = fst yw; isoWeek = snd yw + 1
      in if isoWeek > 52 then (year + 1, 1) else (year, isoWeek))"

definition lastWeek :: "int \<times> int \<Rightarrow> int \<times> int" where
  "lastWeek yw =
     (let year = fst yw; isoWeek = snd yw - 1
      in if isoWeek < 1 then (year - 1, 52) else (year, isoWeek))"

text \<open>\<open>parseDay\<close>, with the reading of the clock (\<open>time.Now()\<close>) as the argument
  \<open>now\<close>. The result is the week key and the name of the day.\<close>

definition parseDay :: "Time \<Rightarrow> string \<Rightarrow> error + (string \<times> string)" where
  "parseDay now input0 =
     (let input = ToLower (TrimSpace input0) in
      if input = ''today'' then
        Inr (weekKey (ISOWeek now), ToLower (weekdayString (Weekday now)))
      else if dateRegex input then
        (case parseDate input of
           None \<Rightarrow> Inl (InvalidDate input)
         | Some t \<Rightarrow> Inr (weekKey (ISOWeek t), ToLower (weekdayString (Weekday t))))
      else
        (let plus = HasPrefix input ''+'';
             input = (if plus then drop 1 input else input)
         in if dayMap input = None then Inl (InvalidDay input)
            else Inr (weekKey (if plus then nextWeek (ISOWeek now) else ISOWeek now), input)))"

text \<open>\<open>isDayArg\<close>\<close>

definition isDayArg :: "string \<Rightarrow> bool" where
  "isDayArg s0 =
     (let s = ToLower (TrimSpace s0);
          names = days @ [''today'']
      in s \<in> set names \<or> s \<in> set (map (\<lambda>d. CHR ''+'' # d) names) \<or> dateRegex s)"

section \<open>Week arithmetic\<close>

text \<open>
  \<open>weekDateRange\<close> and \<open>dayDate\<close> find the Monday of a week key in the same way:
  1 January of the year at midnight in \<open>time.Local\<close>, back to a Monday (\<open>daysToMonday\<close>
  is 0 or negative), then \<open>weekNum - 1\<close> weeks on. \<open>time.Local\<close> is the argument \<open>loc\<close>;
  \<open>daysToMonday\<close> takes the local date of \<open>jan1\<close>.
\<close>

definition daysToMonday :: "Time \<Rightarrow> int" where
  "daysToMonday jan1 = (let d = 1 - Weekday jan1 in if d > 0 then d - 7 else d)"

definition weekMonday :: "Location \<Rightarrow> string \<Rightarrow> Instant" where
  "weekMonday loc week =
     (let (year, weekNum) = scanWeek week;
          jan1 = DateIn loc year 1 1 0;
          firstMonday = AddDate loc jan1 (daysToMonday (localDay loc jan1))
      in AddDate loc firstMonday (wrap64 ((weekNum - 1) * 7)))"

text \<open>\<open>t.Format("Jan 2")\<close> of an instant prints its local date.\<close>

definition Format :: "Location \<Rightarrow> Instant \<Rightarrow> string" where
  "Format loc t = dateFormat (localDay loc t)"

definition weekDateRange :: "Location \<Rightarrow> string \<Rightarrow> string" where
  "weekDateRange loc week =
     (let monday = weekMonday loc week; sunday = AddDate loc monday 6
      in Format loc monday @ '' - '' @ Format loc sunday)"

text \<open>\<open>dayOffsets[day]\<close>: a name that is not in the map reads as 0.\<close>

definition dayOffsets :: "string \<Rightarrow> int" where
  "dayOffsets day = (case dayMap day of Some i \<Rightarrow> int i | None \<Rightarrow> 0)"

text \<open>The date \<open>targetDate\<close> of \<open>dayDate\<close>, and the text \<open>dayDate\<close> returns.\<close>

definition targetDate :: "Location \<Rightarrow> string \<Rightarrow> string \<Rightarrow> Instant" where
  "targetDate loc week day = AddDate loc (weekMonday loc week) (dayOffsets day)"

definition dayDate :: "Location \<Rightarrow> string \<Rightarrow> string \<Rightarrow> string" where
  "dayDate loc week day = Format loc (targetDate loc week day)"

text \<open>
  Two locations. \<open>UTC\<close> has offset 0 at every instant. \<open>Azores\<close> follows the rule of the
  zone Atlantic/Azores since 1996: local time is one hour behind UTC, and is UTC from
  01:00 UTC of the last Sunday of March to 01:00 UTC of the last Sunday of October.
  On that Sunday of March the local clock goes from 23:59:59 to 01:00:00.
\<close>

definition UTC :: Location where
  "UTC t = (0, - (2 ^ 63), 2 ^ 63 - 1)"

definition lastSunday :: "int \<Rightarrow> int \<Rightarrow> Time" where
  "lastSunday year month = (let d = Date year month 31 in d - Weekday d)"

definition summerStart :: "int \<Rightarrow> Instant" where
  "summerStart year = 86400 * lastSunday year 3 + 3600"

definition summerEnd :: "int \<Rightarrow> Instant" where
  "summerEnd year = 86400 * lastSunday year 10 + 3600"

definition Azores :: Location where
  "Azores t =
     (let year = fst (absYear (t div 86400))
      in if t < summerStart year then (- 3600, summerEnd (year - 1), summerStart year)
         else if t < summerEnd year then (0, summerStart year, summerEnd year)
         else (- 3600, summerEnd year, summerStart (year + 1)))"

text \<open>The previous and the next week of \<open>cmdServe\<close>, from the week key of the request.\<close>

definition PrevWeek :: "string \<Rightarrow> string" where
  "PrevWeek week = weekKey (lastWeek (scanWeek week))"

definition NextWeek :: "string \<Rightarrow> string" where
  "NextWeek week = weekKey (nextWeek (scanWeek week))"

text \<open>\<open>getWeek\<close>: the flags \<open>week\<close>, \<open>last\<close> and \<open>next\<close> of \<open>wk ls\<close> are its arguments,
  with the reading of the clock.\<close>

definition getWeek :: "Time \<Rightarrow> string \<Rightarrow> bool \<Rightarrow> bool \<Rightarrow> string" where
  "getWeek now week lastFlag nextFlag =
     (if week \<noteq> [] then week
      else weekKey (if lastFlag then lastWeek (ISOWeek now)
                    else if nextFlag then nextWeek (ISOWeek now)
                    else ISOWeek now))"

text \<open>The format of a week key, \<open>^\d{4}-W\d{2}$\<close>, as the specification gives it
  (section 6); main.go prints keys with \<open>weekKey\<close> and scans them with \<open>scanWeek\<close>.\<close>

fun weekRegex :: "string \<Rightarrow> bool" where
  "weekRegex [y1, y2, y3, y4, s, w, w1, w2] =
     (is_digit y1 \<and> is_digit y2 \<and> is_digit y3 \<and> is_digit y4 \<and> s = CHR ''-'' \<and>
      w = CHR ''W'' \<and> is_digit w1 \<and> is_digit w2)"
| "weekRegex s = False"

section \<open>The store\<close>

text \<open>
  A row of the table \<open>blocks\<close>. A nullable column (\<open>sql.NullString\<close>) is an
  \<open>option\<close>. \<open>CreatedAt\<close> is the column \<open>created_at\<close>, the text
  \<open>YYYY-MM-DD HH:MM:SS\<close> that \<open>CURRENT_TIMESTAMP\<close> writes; the queries order by it
  and do not select it, nor \<open>week\<close> and \<open>day\<close>, and nothing that renders a block reads
  these three fields.
\<close>

record Block =
  ID :: string
  Week :: string
  Day :: string
  Description :: string
  PlannedStart :: "string option"
  PlannedEnd :: "string option"
  ActualStart :: "string option"
  ActualEnd :: "string option"
  IsNote :: bool
  IsUnplanned :: bool
  IsDone :: bool
  Tags :: "string option"
  CreatedAt :: string

text \<open>The table is the list of its rows, in the order they were inserted.\<close>

type_synonym store = "Block list"

text \<open>A row with the defaults of the schema for the columns an \<open>INSERT\<close> does not
  name.\<close>

definition newRow :: "string \<Rightarrow> string \<Rightarrow> string \<Rightarrow> string \<Rightarrow> string \<Rightarrow> string \<Rightarrow> Block" where
  "newRow bid week day desc tags ts =
     \<lparr>ID = bid, Week = week, Day = day, Description = desc,
      PlannedStart = None, PlannedEnd = None, ActualStart = None, ActualEnd = None,
      IsNote = False, IsUnplanned = False, IsDone = False,
      Tags = Some tags, CreatedAt = ts\<rparr>"

text \<open>\<open>INSERT INTO blocks\<close>: \<open>id\<close> is the primary key, so a row whose \<open>id\<close> is in the
  table is refused.\<close>

definition dbInsert :: "Block \<Rightarrow> store \<Rightarrow> store option" where
  "dbInsert b st = (if ID b \<in> ID ` set st then None else Some (st @ [b]))"

text \<open>\<open>UPDATE blocks SET ... WHERE id = ?\<close> and \<open>DELETE FROM blocks WHERE id = ?\<close>, each
  with \<open>RowsAffected\<close>.\<close>

definition dbUpdate :: "(Block \<Rightarrow> Block) \<Rightarrow> string \<Rightarrow> store \<Rightarrow> store \<times> nat" where
  "dbUpdate f bid st =
     (map (\<lambda>b. if ID b = bid then f b else b) st, length (filter (\<lambda>b. ID b = bid) st))"

definition dbDelete :: "string \<Rightarrow> store \<Rightarrow> store \<times> nat" where
  "dbDelete bid st = (filter (\<lambda>b. ID b \<noteq> bid) st, length (filter (\<lambda>b. ID b = bid) st))"

text \<open>
  The query of \<open>cmdLs\<close> and of \<open>cmdServe\<close>:
  \<^verbatim>\<open>WHERE week = ? AND day = ?
  ORDER BY CASE WHEN planned_start IS NOT NULL THEN planned_start
                WHEN actual_start IS NOT NULL THEN actual_start
                ELSE '99:99' END, created_at\<close>
  SQLite compares texts byte by byte, as the order on \<open>string\<close> does. Rows that are equal
  in both keys come in an order the database is free to choose; the model keeps the
  order of insertion.
\<close>

definition orderStart :: "Block \<Rightarrow> string" where
  "orderStart b =
     (case PlannedStart b of
        Some p \<Rightarrow> p
      | None \<Rightarrow> (case ActualStart b of Some a \<Rightarrow> a | None \<Rightarrow> ''99:99''))"

definition dayBlocks :: "store \<Rightarrow> string \<Rightarrow> string \<Rightarrow> Block list" where
  "dayBlocks st week day =
     sort_key (\<lambda>b. (orderStart b, CreatedAt b)) (filter (\<lambda>b. Week b = week \<and> Day b = day) st)"

text \<open>
  A real time of day, in the words of the specification: a clock as the parser writes
  it, two digits on each side of the colon, with an hour below 24 and a minute below
  60.
\<close>

definition realTime :: "string \<Rightarrow> bool" where
  "realTime t =
     (timeRegex t \<and> length t = 5 \<and> atoi (take 2 t) < 24 \<and> atoi (drop 3 t) < 60)"

section \<open>The commands\<close>

text \<open>
  Each command takes the table and returns the table after it with what it reports: an
  error (the message goes to standard error and the process exits with 1) or the line
  it prints. The clock (\<open>now\<close> for \<open>time.Now()\<close>, \<open>ts\<close> for \<open>CURRENT_TIMESTAMP\<close>), the
  result \<open>bid\<close> of \<open>generateID()\<close> and the flags are arguments. \<open>args\<close> has the length
  cobra checks for the command.
\<close>

definition tagStr :: "string \<Rightarrow> string" where
  "tagStr tags = (if tags \<noteq> [] then '' ['' @ tags @ '']'' else [])"

text \<open>The choice of the day and the time range in \<open>cmdAdd\<close> and in \<open>cmdActual\<close>.\<close>

definition dayTimeArgs :: "string list \<Rightarrow> string \<times> string \<times> string list" where
  "dayTimeArgs args =
     (if isTimeRange (args ! 0) then (''today'', args ! 0, drop 1 args)
      else (args ! 0, args ! 1, drop 2 args))"

definition cmdAdd ::
  "Time \<Rightarrow> string \<Rightarrow> string \<Rightarrow> string \<Rightarrow> string list \<Rightarrow> store \<Rightarrow> store \<times> (error + string)" where
  "cmdAdd now ts bid flagTag args st =
     (let (dayArg, timeArg, descArgs) = dayTimeArgs args in
      case parseDay now dayArg of
        Inl err \<Rightarrow> (st, Inl err)
      | Inr (week, day) \<Rightarrow>
          (case parseTimeRange timeArg of
             Inl err \<Rightarrow> (st, Inl err)
           | Inr (start, end) \<Rightarrow>
               (let (desc, tags) = extractTags ToLower (Join descArgs '' '') flagTag;
                    row = (newRow bid week day desc tags ts)
                            \<lparr>PlannedStart := Some start, PlannedEnd := Some end\<rparr>
                in case dbInsert row st of
                     None \<Rightarrow> (st, Inl StoreError)
                   | Some st' \<Rightarrow>
                       (st', Inr (''['' @ bid @ ''] Added: '' @ day @ '' '' @ start @ ''-'' @ end
                                  @ '' '' @ desc @ tagStr tags)))))"

definition cmdNote ::
  "Time \<Rightarrow> string \<Rightarrow> string \<Rightarrow> string \<Rightarrow> string list \<Rightarrow> store \<Rightarrow> store \<times> (error + string)" where
  "cmdNote now ts bid flagTag args st =
     (let (dayArg, descArgs) =
            (if isDayArg (args ! 0) then (args ! 0, drop 1 args) else (''today'', args))
      in if length descArgs = 0 then (st, Inl MissingArgument)
         else
           (case parseDay now dayArg of
              Inl err \<Rightarrow> (st, Inl err)
            | Inr (week, day) \<Rightarrow>
                (let (desc, tags) = extractTags ToLower (Join descArgs '' '') flagTag;
                     row = (newRow bid week day desc tags ts)\<lparr>IsNote := True\<rparr>
                 in case dbInsert row st of
                      None \<Rightarrow> (st, Inl StoreError)
                    | Some st' \<Rightarrow>
                        (st', Inr (''['' @ bid @ ''] Note added to '' @ day @ '': '' @ desc
                                   @ tagStr tags)))))"

text \<open>The marks the program prints, as their bytes in UTF-8: the check mark (U+2713),
  the high voltage sign (U+26A1), the bullet (U+2022) and the arrow (U+2192).\<close>

definition check_mark :: string where
  "check_mark = [CHR 0xE2, CHR 0x9C, CHR 0x93]"

definition high_voltage :: string where
  "high_voltage = [CHR 0xE2, CHR 0x9A, CHR 0xA1]"

definition bullet :: string where
  "bullet = [CHR 0xE2, CHR 0x80, CHR 0xA2]"

definition arrow :: string where
  "arrow = [CHR 0xE2, CHR 0x86, CHR 0x92]"

text \<open>\<open>cmdActual\<close> with the flag \<open>unplanned\<close>: a new row with the actual times,
  \<open>is_unplanned\<close> and \<open>is_done\<close> set.\<close>

definition cmdActualUnplanned ::
  "Time \<Rightarrow> string \<Rightarrow> string \<Rightarrow> string \<Rightarrow> string list \<Rightarrow> store \<Rightarrow> store \<times> (error + string)" where
  "cmdActualUnplanned now ts bid flagTag args st =
     (if length args < 2 then (st, Inl MissingArgument)
      else
        (let (dayArg, timeArg, descArgs) = dayTimeArgs args in
         case parseDay now dayArg of
           Inl err \<Rightarrow> (st, Inl err)
         | Inr (week, day) \<Rightarrow>
             (case parseTimeRange timeArg of
                Inl err \<Rightarrow> (st, Inl err)
              | Inr (start, end) \<Rightarrow>
                  if length descArgs = 0 then (st, Inl MissingArgument)
                  else
                    (let (desc, tags) = extractTags ToLower (Join descArgs '' '') flagTag;
                         row = (newRow bid week day desc tags ts)
                                 \<lparr>ActualStart := Some start, ActualEnd := Some end,
                                  IsUnplanned := True, IsDone := True\<rparr>
                     in case dbInsert row st of
                          None \<Rightarrow> (st, Inl StoreError)
                        | Some st' \<Rightarrow>
                            (st', Inr (''['' @ bid @ ''] '' @ high_voltage @ '' Unplanned: '' @ day
                                       @ '' '' @ start @ ''-'' @ end @ '' '' @ desc
                                       @ tagStr tags))))))"

text \<open>\<open>cmdActual\<close> without the flag: the actual times of the row \<open>args[0]\<close>.\<close>

definition cmdActualRecord :: "string list \<Rightarrow> store \<Rightarrow> store \<times> (error + string)" where
  "cmdActualRecord args st =
     (if length args < 2 then (st, Inl MissingArgument)
      else
        (let bid = args ! 0 in
         case parseTimeRange (args ! 1) of
           Inl err \<Rightarrow> (st, Inl err)
         | Inr (start, end) \<Rightarrow>
             (let (st', rows) =
                    dbUpdate (\<lambda>b. b\<lparr>ActualStart := Some start, ActualEnd := Some end\<rparr>) bid st
              in if rows = 0 then (st', Inl (NotFound bid))
                 else (st', Inr (''['' @ bid @ ''] Actual time recorded: '' @ start @ ''-''
                                 @ end)))))"

definition cmdActual ::
  "Time \<Rightarrow> string \<Rightarrow> string \<Rightarrow> bool \<Rightarrow> string \<Rightarrow> string list \<Rightarrow> store \<Rightarrow> store \<times> (error + string)"
  where
  "cmdActual now ts bid unplanned flagTag args st =
     (if unplanned then cmdActualUnplanned now ts bid flagTag args st
      else cmdActualRecord args st)"

definition cmdDone :: "string list \<Rightarrow> store \<Rightarrow> store \<times> (error + string)" where
  "cmdDone args st =
     (let (st', rows) = dbUpdate (\<lambda>b. b\<lparr>IsDone := True\<rparr>) (args ! 0) st
      in if rows = 0 then (st', Inl (NotFound (args ! 0)))
         else (st', Inr (''['' @ args ! 0 @ ''] '' @ check_mark @ '' Marked done'')))"

definition cmdUndone :: "string list \<Rightarrow> store \<Rightarrow> store \<times> (error + string)" where
  "cmdUndone args st =
     (let (st', rows) = dbUpdate (\<lambda>b. b\<lparr>IsDone := False\<rparr>) (args ! 0) st
      in if rows = 0 then (st', Inl (NotFound (args ! 0)))
         else (st', Inr (''['' @ args ! 0 @ ''] Unmarked done'')))"

definition cmdRm :: "string list \<Rightarrow> store \<Rightarrow> store \<times> (error + string)" where
  "cmdRm args st =
     (let (st', rows) = dbDelete (args ! 0) st
      in if rows = 0 then (st', Inl (NotFound (args ! 0)))
         else (st', Inr (''['' @ args ! 0 @ ''] Deleted'')))"

section \<open>Rendering a block\<close>

text \<open>\<open>b.PlannedStart.String\<close>: the text of a nullable column, empty when it is
  null.\<close>

definition String :: "string option \<Rightarrow> string" where
  "String v = (case v of Some s \<Rightarrow> s | None \<Rightarrow> [])"

text \<open>\<open>strings.ReplaceAll(s, ",", " #")\<close>\<close>

definition commasToHashes :: "string \<Rightarrow> string" where
  "commasToHashes s = concat (map (\<lambda>c. if c = CHR '','' then '' #'' else [c]) s)"

definition lsTagStr :: "Block \<Rightarrow> string" where
  "lsTagStr b =
     (if Tags b \<noteq> None \<and> String (Tags b) \<noteq> [] then '' #'' @ commasToHashes (String (Tags b))
      else [])"

text \<open>The status mark: two assignments in a row, the second has the last word.\<close>

definition status :: "Block \<Rightarrow> string" where
  "status b =
     (let s = '' '';
          s = (if IsDone b then check_mark else s);
          s = (if IsUnplanned b then high_voltage else s)
      in s)"

definition timeStr :: "Block \<Rightarrow> string" where
  "timeStr b =
     (if IsUnplanned b then String (ActualStart b) @ ''-'' @ String (ActualEnd b)
      else if ActualStart b \<noteq> None then
        String (PlannedStart b) @ ''-'' @ String (PlannedEnd b) @ '' '' @ arrow @ '' ''
        @ String (ActualStart b) @ ''-'' @ String (ActualEnd b)
      else String (PlannedStart b) @ ''-'' @ String (PlannedEnd b))"

text \<open>The verb \<open>%-23s\<close>: blanks on the right up to 23 characters. The characters of a
  text in UTF-8 are its bytes other than the continuation bytes \<open>10xxxxxx\<close>.\<close>

definition runeCount :: "string \<Rightarrow> nat" where
  "runeCount s = length (filter (\<lambda>c. (of_char c :: nat) div 64 \<noteq> 2) s)"

definition padRight :: "nat \<Rightarrow> string \<Rightarrow> string" where
  "padRight n s = s @ replicate (n - runeCount s) (CHR '' '')"

text \<open>The line \<open>cmdLs\<close> prints for a block, without its newline.\<close>

definition renderBlock :: "Block \<Rightarrow> string" where
  "renderBlock b =
     (if IsNote b then ''  '' @ bullet @ '' '' @ Description b @ lsTagStr b
      else ''  ['' @ ID b @ ''] '' @ status b @ '' '' @ padRight 23 (timeStr b) @ '' ''
           @ Description b @ lsTagStr b)"

text \<open>The lines of the blocks of one day, in the order of the query.\<close>

definition lsDay :: "store \<Rightarrow> string \<Rightarrow> string \<Rightarrow> string list" where
  "lsDay st week day = map renderBlock (dayBlocks st week day)"

section \<open>Properties of the time-range parser\<close>

lemma length_Split: "length (Split s c) = Suc (count_list s c)"
  by (induction s) (auto split: list.splits)

lemma Split_no_sep: "c \<notin> set s \<Longrightarrow> Split s c = [s]"
  by (induction s) auto

lemma Split_append: "c \<notin> set a \<Longrightarrow> Split (a @ c # b) c = a # Split b c"
  by (induction a) auto

lemma timeRegex_shape:
  "timeRegex a \<Longrightarrow>
   (\<exists>h m1 m2. a = [h, CHR '':'', m1, m2] \<and> is_digit h \<and> is_digit m1 \<and> is_digit m2) \<or>
   (\<exists>h1 h2 m1 m2. a = [h1, h2, CHR '':'', m1, m2] \<and> is_digit h1 \<and> is_digit h2 \<and>
      is_digit m1 \<and> is_digit m2)"
  by (cases a rule: timeRegex.cases) simp_all

text \<open>The bytes a white space character begins with, and those it ends with.\<close>

lemma spaces_nonempty: "p \<in> set spaces \<Longrightarrow> p \<noteq> []"
  by (auto simp: spaces_def)

lemma spacePrefix_None: "s \<noteq> [] \<Longrightarrow> hd s \<notin> hd ` set spaces \<Longrightarrow> spacePrefix s = None"
proof -
  assume a: "s \<noteq> []" "hd s \<notin> hd ` set spaces"
  have "\<And>p. p \<in> set spaces \<Longrightarrow> take (length p) s \<noteq> p"
  proof
    fix p assume p: "p \<in> set spaces" "take (length p) s = p"
    then have "p \<noteq> []" by (simp add: spaces_nonempty)
    then have "hd p = hd s" using p(2) a(1) by (metis hd_take length_greater_0_conv)
    then show False using a(2) p(1) by (metis imageI)
  qed
  then show ?thesis by (simp add: spacePrefix_def find_None_iff)
qed

lemma spaceSuffix_None:
  "s \<noteq> [] \<Longrightarrow> last s \<notin> last ` set spaces \<Longrightarrow> spaceSuffix s = None"
proof -
  assume a: "s \<noteq> []" "last s \<notin> last ` set spaces"
  have "\<And>p. p \<in> set spaces \<Longrightarrow> drop (length s - length p) s \<noteq> p"
  proof
    fix p assume p: "p \<in> set spaces" "drop (length s - length p) s = p"
    then have "p \<noteq> []" by (simp add: spaces_nonempty)
    then have "last p = last s" using p(2) a(1) by (metis last_drop drop_eq_Nil not_le)
    then show False using a(2) p(1) by (metis imageI)
  qed
  then show ?thesis by (simp add: spaceSuffix_def find_None_iff)
qed

lemma digit_not_space:
  assumes "is_digit c"
  shows "c \<notin> hd ` set spaces \<and> c \<notin> last ` set spaces"
proof -
  have "\<forall>d \<in> set ''0123456789''. d \<notin> hd ` set spaces \<and> d \<notin> last ` set spaces"
    by code_simp
  then show ?thesis using assms unfolding is_digit_def by blast
qed

lemma digit_not_dash: "is_digit c \<Longrightarrow> c \<noteq> CHR ''-''"
  by (auto simp: is_digit_def)

lemma TrimSpace_plain:
  "s \<noteq> [] \<Longrightarrow> hd s \<notin> hd ` set spaces \<Longrightarrow> last s \<notin> last ` set spaces \<Longrightarrow>
   TrimSpace s = s"
  by (simp add: TrimSpace_def spacePrefix_None spaceSuffix_None)

lemma timeRegex_plain:
  assumes "timeRegex a"
  shows "CHR ''-'' \<notin> set a \<and> TrimSpace a = a \<and> (length a = 4 \<or> length a = 5)"
  using timeRegex_shape[OF assms]
  by (auto simp: TrimSpace_plain digit_not_space dest: digit_not_dash)

lemma case_two_other:
  "length xs \<noteq> 2 \<Longrightarrow>
   (case xs of [] \<Rightarrow> d | [p0] \<Rightarrow> d | [p0, p1] \<Rightarrow> f p0 p1 | _ \<Rightarrow> d) = d"
  by (cases xs; cases "tl xs"; cases "tl (tl xs)") auto

lemma length_two: "length xs = 2 \<Longrightarrow> \<exists>p q. xs = [p, q]"
  by (cases xs; cases "tl xs") auto

lemma parseTimeRange_not_two:
  "length (Split input (CHR ''-'')) \<noteq> 2 \<Longrightarrow>
   parseTimeRange input = Inl (InvalidTimeRange input)"
  unfolding parseTimeRange_def by (rule case_two_other)

lemma parseTimeRange_two:
  "Split input (CHR ''-'') = [p, q] \<Longrightarrow>
   parseTimeRange input =
     (if \<not> timeRegex (TrimSpace p) \<or> \<not> timeRegex (TrimSpace q)
      then Inl (InvalidTimeFormat input)
      else Inr (pad_clock (TrimSpace p), pad_clock (TrimSpace q)))"
  unfolding parseTimeRange_def by (simp add: Let_def)

lemma TrimSpace_Nil: "TrimSpace [] = []"
  by code_simp

text \<open>
  C4, as the specification states it: a token whose split on the dash has an empty side
  fails with \<open>InvalidTimeRange\<close>. The code tests only the number of parts:
  \<open>"-10:00"\<close> splits into the two parts \<open>""\<close> and \<open>"10:00"\<close>, passes that test, and fails
  at the pattern, with \<open>InvalidTimeFormat\<close>.
\<close>

theorem parseTimeRange_empty_side_counterexample:
  "Split ''-10:00'' (CHR ''-'') = [[], ''10:00''] \<and>
   parseTimeRange ''-10:00'' = Inl (InvalidTimeFormat ''-10:00'') \<and>
   parseTimeRange ''-10:00'' \<noteq> Inl (InvalidTimeRange ''-10:00'')"
  by code_simp

text \<open>
  C4, amended: the parser fails with \<open>InvalidTimeRange\<close> exactly when the split on the
  dash does not yield two parts, that is when the token does not hold exactly one dash
  (none, or two and more); a token with one dash and an empty side fails with
  \<open>InvalidTimeFormat\<close>.
\<close>

theorem parseTimeRange_shape:
  "(count_list input (CHR ''-'') \<noteq> 1 \<longrightarrow>
      parseTimeRange input = Inl (InvalidTimeRange input)) \<and>
   (count_list input (CHR ''-'') = 1 \<longrightarrow>
      parseTimeRange input \<noteq> Inl (InvalidTimeRange input)) \<and>
   (CHR ''-'' \<notin> set a \<and> CHR ''-'' \<notin> set b \<and> (a = [] \<or> b = []) \<longrightarrow>
      parseTimeRange (a @ ''-'' @ b) = Inl (InvalidTimeFormat (a @ ''-'' @ b)))"
proof (intro conjI impI)
  assume "count_list input (CHR ''-'') \<noteq> 1"
  then have "length (Split input (CHR ''-'')) \<noteq> 2"
    by (simp add: length_Split)
  then show "parseTimeRange input = Inl (InvalidTimeRange input)"
    by (rule parseTimeRange_not_two)
next
  assume "count_list input (CHR ''-'') = 1"
  then have "length (Split input (CHR ''-'')) = 2"
    by (simp add: length_Split)
  then obtain p q where "Split input (CHR ''-'') = [p, q]"
    using length_two by blast
  then show "parseTimeRange input \<noteq> Inl (InvalidTimeRange input)"
    by (simp add: parseTimeRange_two)
next
  assume h: "CHR ''-'' \<notin> set a \<and> CHR ''-'' \<notin> set b \<and> (a = [] \<or> b = [])"
  then have "Split (a @ ''-'' @ b) (CHR ''-'') = [a, b]"
    by (simp add: Split_append Split_no_sep)
  then have "parseTimeRange (a @ ''-'' @ b) =
     (if \<not> timeRegex (TrimSpace a) \<or> \<not> timeRegex (TrimSpace b)
      then Inl (InvalidTimeFormat (a @ ''-'' @ b))
      else Inr (pad_clock (TrimSpace a), pad_clock (TrimSpace b)))"
    by (rule parseTimeRange_two)
  moreover have "\<not> timeRegex (TrimSpace a) \<or> \<not> timeRegex (TrimSpace b)"
    using h by (auto simp: TrimSpace_Nil)
  ultimately show "parseTimeRange (a @ ''-'' @ b) = Inl (InvalidTimeFormat (a @ ''-'' @ b))"
    by simp
qed

theorem parseTimeRange_shape_witness:
  "parseTimeRange ''0900'' = Inl (InvalidTimeRange ''0900'') \<and>
   parseTimeRange ''9:00-10:00-11:00'' = Inl (InvalidTimeRange ''9:00-10:00-11:00'') \<and>
   parseTimeRange ''9:5-10:00'' \<noteq> Inl (InvalidTimeRange ''9:5-10:00'') \<and>
   parseTimeRange ''9:00-'' = Inl (InvalidTimeFormat ''9:00-'')"
  using parseTimeRange_shape [of "''0900''" "[]" "[]"]
    parseTimeRange_shape [of "''9:00-10:00-11:00''" "[]" "[]"]
    parseTimeRange_shape [of "''9:5-10:00''" "''9:00''" "[]"]
  by simp

text \<open>
  C5: when both sides of the dash match the clock pattern, the parser succeeds and its
  output is the two sides, a one-digit hour padded with a zero, so both have five bytes.
  Nothing but the pattern is tested: the hypothesis is the pattern alone, so every hour
  from 0 to 99 and every minute from 00 to 99 is accepted, in any order of start and
  end. A one-digit minute does not match: \<open>"9:5-10:00"\<close> fails with
  \<open>InvalidTimeFormat\<close>.
\<close>

theorem parseTimeRange_accepts:
  assumes "timeRegex a" and "timeRegex b"
  shows "parseTimeRange (a @ ''-'' @ b) = Inr (pad_clock a, pad_clock b) \<and>
         pad_clock a = (if length a = 4 then CHR ''0'' # a else a) \<and>
         pad_clock b = (if length b = 4 then CHR ''0'' # b else b) \<and>
         length (pad_clock a) = 5 \<and> length (pad_clock b) = 5 \<and>
         parseTimeRange ''9:5-10:00'' = Inl (InvalidTimeFormat ''9:5-10:00'')"
proof -
  have a: "CHR ''-'' \<notin> set a" "TrimSpace a = a" "length a = 4 \<or> length a = 5"
    using timeRegex_plain[OF assms(1)] by simp_all
  have b: "CHR ''-'' \<notin> set b" "TrimSpace b = b" "length b = 4 \<or> length b = 5"
    using timeRegex_plain[OF assms(2)] by simp_all
  have "Split (a @ ''-'' @ b) (CHR ''-'') = [a, b]"
    using a(1) b(1) by (simp add: Split_append Split_no_sep)
  then have "parseTimeRange (a @ ''-'' @ b) = Inr (pad_clock a, pad_clock b)"
    using assms a(2) b(2) by (simp add: parseTimeRange_two)
  moreover have "length (pad_clock a) = 5" "length (pad_clock b) = 5"
    using a(3) b(3) by (auto simp: pad_clock_def)
  moreover have "parseTimeRange ''9:5-10:00'' = Inl (InvalidTimeFormat ''9:5-10:00'')"
    by code_simp
  ultimately show ?thesis
    by (simp add: pad_clock_def)
qed

theorem parseTimeRange_accepts_witness:
  "parseTimeRange ''9:00-10:00'' = Inr (''09:00'', ''10:00'') \<and>
   parseTimeRange ''09:05-10:00'' = Inr (''09:05'', ''10:00'') \<and>
   parseTimeRange ''25:00-26:00'' = Inr (''25:00'', ''26:00'') \<and>
   parseTimeRange ''17:00-9:99'' = Inr (''17:00'', ''09:99'')"
  using parseTimeRange_accepts [of "''9:00''" "''10:00''"]
    parseTimeRange_accepts [of "''09:05''" "''10:00''"]
    parseTimeRange_accepts [of "''25:00''" "''26:00''"]
    parseTimeRange_accepts [of "''17:00''" "''9:99''"]
  by (simp add: is_digit_def pad_clock_def)

section \<open>Properties of the tag extractor\<close>

lemma set_keep_first: "set (keep_first xs) = set xs"
  by (induction xs rule: keep_first.induct) auto

lemma distinct_keep_first: "distinct (keep_first xs)"
  by (induction xs rule: keep_first.induct) (auto simp: set_keep_first)

lemma keep_first_filter_seen:
  "dedupe ts seen acc = acc @ keep_first (filter (\<lambda>t. t \<notin> seen) ts)"
proof (induction ts arbitrary: seen acc)
  case Nil
  then show ?case by simp
next
  case (Cons t ts)
  have eq: "filter (\<lambda>y. y \<noteq> t) (filter (\<lambda>t. t \<notin> seen) ts) = filter (\<lambda>u. u \<notin> insert t seen) ts"
    by (induction ts) auto
  show ?case
    using Cons.IH[of "insert t seen" "acc @ [t]"] Cons.IH[of seen acc] eq
    by simp
qed

lemma not_word_hash: "\<not> is_word (CHR ''#'')"
  by (simp add: is_word_def)

lemma hashtags_plain:
  "plain piece \<Longrightarrow> stops s \<Longrightarrow>
   hashtags (piece @ s) = hashtags s \<and> strip_hashtags (piece @ s) = piece @ strip_hashtags s"
proof (induction piece rule: plain.induct)
  case (1 c d cs)
  have n: "\<not> (c = CHR ''#'' \<and> d # cs @ s \<noteq> [] \<and> is_word (hd (d # cs @ s)))"
    using "1.prems"(1) by simp
  have "hashtags (c # d # cs @ s) = hashtags (d # cs @ s)"
    "strip_hashtags (c # d # cs @ s) = c # strip_hashtags (d # cs @ s)"
    using n by (simp_all only: hashtags.simps strip_hashtags.simps if_False)
  moreover have "hashtags ((d # cs) @ s) = hashtags s \<and>
      strip_hashtags ((d # cs) @ s) = (d # cs) @ strip_hashtags s"
    using "1.IH" "1.prems" by simp
  ultimately show ?case
    by (simp del: hashtags.simps strip_hashtags.simps)
qed (auto simp: stops_def)

lemma hashtags_tag:
  assumes "tag \<noteq> []" "list_all is_word tag" "stops s"
  shows "hashtags (CHR ''#'' # tag @ s) = tag # hashtags s \<and>
         strip_hashtags (CHR ''#'' # tag @ s) = strip_hashtags s"
proof -
  have a: "\<forall>c \<in> set tag. is_word c"
    using assms(2) by (simp add: list_all_iff)
  have n: "takeWhile is_word s = []" "dropWhile is_word s = s"
    using assms(3) by (cases s; simp add: stops_def)+
  have t: "takeWhile is_word (tag @ s) = tag" "dropWhile is_word (tag @ s) = s"
    using a n by simp_all
  have h: "is_word (hd (tag @ s))"
    using assms(1) a by (cases tag) auto
  show ?thesis
    using assms(1) h t by simp
qed

lemma stops_hash: "stops (CHR ''#'' # s)"
  by (simp add: stops_def not_word_hash)

lemma hashtags_tagged:
  "tags_ok segs rest \<Longrightarrow>
   hashtags (tagged segs rest) = map snd segs \<and>
   strip_hashtags (tagged segs rest) = concat (map fst segs) @ rest"
proof (induction segs)
  case Nil
  then show ?case
    using hashtags_plain[of rest "[]"] by (simp add: stops_def)
next
  case (Cons seg segs)
  obtain piece tag where seg: "seg = (piece, tag)" by (cases seg) auto
  have ok: "plain piece" "tag \<noteq> []" "list_all is_word tag" "stops (tagged segs rest)"
    "tags_ok segs rest"
    using Cons.prems by (simp_all add: seg)
  have 1: "hashtags (piece @ CHR ''#'' # tag @ tagged segs rest) =
             hashtags (CHR ''#'' # tag @ tagged segs rest)"
      "strip_hashtags (piece @ CHR ''#'' # tag @ tagged segs rest) =
             piece @ strip_hashtags (CHR ''#'' # tag @ tagged segs rest)"
    using hashtags_plain[OF ok(1) stops_hash] by blast+
  have 2: "hashtags (CHR ''#'' # tag @ tagged segs rest) = tag # hashtags (tagged segs rest)"
      "strip_hashtags (CHR ''#'' # tag @ tagged segs rest) = strip_hashtags (tagged segs rest)"
    using hashtags_tag[OF ok(2,3,4)] by blast+
  show ?case
    using Cons.IH[OF ok(5)]
    by (simp del: hashtags.simps strip_hashtags.simps add: seg 1 2)
qed

text \<open>Every text is such a text: the pieces and the tags can be read off it.\<close>

lemma tagged_cons:
  assumes "tags_ok segs rest" "\<not> (c = CHR ''#'' \<and> tagged segs rest \<noteq> [] \<and> is_word (hd (tagged segs rest)))"
  shows "\<exists>segs' rest'. tags_ok segs' rest' \<and> c # tagged segs rest = tagged segs' rest'"
proof (cases segs)
  case Nil
  have "plain (c # rest)"
    using assms by (cases rest) (auto simp: Nil)
  then have "tags_ok [] (c # rest) \<and> c # tagged segs rest = tagged [] (c # rest)"
    by (simp add: Nil)
  then show ?thesis by blast
next
  case (Cons seg more)
  obtain piece tag where seg: "seg = (piece, tag)" by (cases seg) auto
  have "plain (c # piece)"
    using assms by (cases piece) (auto simp: Cons seg not_word_hash)
  then have "tags_ok ((c # piece, tag) # more) rest \<and>
      c # tagged segs rest = tagged ((c # piece, tag) # more) rest"
    using assms(1) by (simp add: Cons seg)
  then show ?thesis by blast
qed

lemma tagged_all: "\<exists>segs rest. tags_ok segs rest \<and> s = tagged segs rest"
proof (induction s rule: hashtags.induct)
  case 1
  have "tags_ok [] [] \<and> [] = tagged [] []" by simp
  then show ?case by blast
next
  case (2 c cs)
  show ?case
  proof (cases "c = CHR ''#'' \<and> cs \<noteq> [] \<and> is_word (hd cs)")
    case True
    define tag where "tag = takeWhile is_word cs"
    define s' where "s' = dropWhile is_word cs"
    obtain segs rest where ih: "tags_ok segs rest" "s' = tagged segs rest"
      using 2(1)[OF True] unfolding s'_def by blast
    have t1: "tag \<noteq> []"
      using True by (cases cs) (simp_all add: tag_def)
    have t2: "list_all is_word tag"
      by (auto simp: tag_def list_all_iff dest: set_takeWhileD)
    have t3: "cs = tag @ s'"
      by (simp add: tag_def s'_def)
    note t = t1 t2 t3
    have "stops s'"
      unfolding stops_def s'_def using hd_dropWhile[of is_word cs] by blast
    then have "tags_ok (([], tag) # segs) rest \<and> c # cs = tagged (([], tag) # segs) rest"
      using True t ih by simp
    then show ?thesis by blast
  next
    case False
    obtain segs rest where ih: "tags_ok segs rest" "cs = tagged segs rest"
      using 2(2)[OF False] by blast
    show ?thesis
      using tagged_cons[OF ih(1), of c] False unfolding ih(2)[symmetric] by blast
  qed
qed

text \<open>
  C7: the tags of a text are its hashtags from left to right: for the text made of
  the pieces and tags \<open>segs\<close> and the last piece \<open>rest\<close>, the list of the tags of \<open>segs\<close>,
  and the cleaned text is the pieces put together, trimmed; every text is such a text.
  The tag list is the list of the lowercased flag tag (when there is one) followed by
  the lowercased hashtags in this order, with every tag that occurred before removed:
  \<open>keep_first\<close> of that list, which has no duplicates. As all tags are in lower case
  when they are compared, tags that differ in case only are duplicates. This holds
  whatever the lowercase mapping is. The tag string is the list joined with commas.
  The two examples of the specification are evaluated, and two texts with several
  tags.
\<close>

theorem uniqueTags_first_seen:
  "(tags_ok segs rest \<longrightarrow>
      hashtags (tagged segs rest) = map snd segs \<and>
      uniqueTags lower (tagged segs rest) flagTag =
        keep_first ((if flagTag \<noteq> [] then [lower flagTag] else []) @ map (lower \<circ> snd) segs) \<and>
      extractTags lower (tagged segs rest) flagTag =
        (TrimSpace (concat (map fst segs) @ rest),
         Join (keep_first ((if flagTag \<noteq> [] then [lower flagTag] else [])
                           @ map (lower \<circ> snd) segs)) '','')) \<and>
   (\<exists>segs' rest'. tags_ok segs' rest' \<and> desc = tagged segs' rest') \<and>
   uniqueTags lower desc flagTag =
     keep_first ((if flagTag \<noteq> [] then [lower flagTag] else []) @ map lower (hashtags desc)) \<and>
   distinct (uniqueTags lower desc flagTag) \<and>
   snd (extractTags lower desc flagTag) = Join (uniqueTags lower desc flagTag) '','' \<and>
   extractTags ToLower ''deep work #project #Project'' [] = (''deep work'', ''project'') \<and>
   uniqueTags ToLower ''deep work #project #Project'' [] = [''project''] \<and>
   extractTags ToLower ''sync'' ''Acme'' = (''sync'', ''acme'') \<and>
   uniqueTags ToLower ''sync'' ''Acme'' = [''acme''] \<and>
   extractTags ToLower ''sync #booq #Shop, then #Acme#booq'' ''Shop'' =
     (''sync  , then'', ''shop,booq,acme'') \<and>
   uniqueTags ToLower ''a #x #Y #X #z #y'' [] = [''x'', ''y'', ''z'']"
proof -
  have u: "\<And>desc. uniqueTags lower desc flagTag = keep_first (tagList lower desc flagTag)"
    by (simp add: uniqueTags_def keep_first_filter_seen)
  have j: "\<And>desc. snd (extractTags lower desc flagTag) = Join (uniqueTags lower desc flagTag) '',''"
    by (simp add: extractTags_def Let_def)
  have c: "\<And>desc. fst (extractTags lower desc flagTag) = TrimSpace (strip_hashtags desc)"
    by (simp add: extractTags_def Let_def)
  have g: "tags_ok segs rest \<longrightarrow>
      hashtags (tagged segs rest) = map snd segs \<and>
      uniqueTags lower (tagged segs rest) flagTag =
        keep_first ((if flagTag \<noteq> [] then [lower flagTag] else []) @ map (lower \<circ> snd) segs) \<and>
      extractTags lower (tagged segs rest) flagTag =
        (TrimSpace (concat (map fst segs) @ rest),
         Join (keep_first ((if flagTag \<noteq> [] then [lower flagTag] else [])
                           @ map (lower \<circ> snd) segs)) '','')"
  proof
    assume ok: "tags_ok segs rest"
    have h: "hashtags (tagged segs rest) = map snd segs"
      "strip_hashtags (tagged segs rest) = concat (map fst segs) @ rest"
      using hashtags_tagged[OF ok] by blast+
    have k: "uniqueTags lower (tagged segs rest) flagTag =
        keep_first ((if flagTag \<noteq> [] then [lower flagTag] else []) @ map (lower \<circ> snd) segs)"
      unfolding u tagList_def h by simp
    have "extractTags lower (tagged segs rest) flagTag =
        (fst (extractTags lower (tagged segs rest) flagTag),
         snd (extractTags lower (tagged segs rest) flagTag))"
      by simp
    then have "extractTags lower (tagged segs rest) flagTag =
        (TrimSpace (concat (map fst segs) @ rest),
         Join (keep_first ((if flagTag \<noteq> [] then [lower flagTag] else [])
                           @ map (lower \<circ> snd) segs)) '','')"
      unfolding c j h k .
    then show "hashtags (tagged segs rest) = map snd segs \<and>
      uniqueTags lower (tagged segs rest) flagTag =
        keep_first ((if flagTag \<noteq> [] then [lower flagTag] else []) @ map (lower \<circ> snd) segs) \<and>
      extractTags lower (tagged segs rest) flagTag =
        (TrimSpace (concat (map fst segs) @ rest),
         Join (keep_first ((if flagTag \<noteq> [] then [lower flagTag] else [])
                           @ map (lower \<circ> snd) segs)) '','')"
      using h(1) k by blast
  qed
  have a: "\<exists>segs' rest'. tags_ok segs' rest' \<and> desc = tagged segs' rest'"
    by (rule tagged_all)
  have d: "distinct (uniqueTags lower desc flagTag)"
    unfolding u by (rule distinct_keep_first)
  have u': "uniqueTags lower desc flagTag =
     keep_first ((if flagTag \<noteq> [] then [lower flagTag] else []) @ map lower (hashtags desc))"
    unfolding u tagList_def ..
  have e1: "uniqueTags ToLower ''deep work #project #Project'' [] = [''project'']"
    by code_simp
  have e2: "extractTags ToLower ''deep work #project #Project'' [] = (''deep work'', ''project'')"
    by code_simp
  have e3: "uniqueTags ToLower ''sync'' ''Acme'' = [''acme'']"
    by code_simp
  have e4: "extractTags ToLower ''sync'' ''Acme'' = (''sync'', ''acme'')"
    by code_simp
  have e5: "extractTags ToLower ''sync #booq #Shop, then #Acme#booq'' ''Shop'' =
     (''sync  , then'', ''shop,booq,acme'')"
    by code_simp
  have e6: "uniqueTags ToLower ''a #x #Y #X #z #y'' [] = [''x'', ''y'', ''z'']"
    by code_simp
  show ?thesis
    using g a u' d j[of desc] e1 e2 e3 e4 e5 e6 by blast
qed

theorem uniqueTags_first_seen_witness:
  "tags_ok [(''sync '', ''booq''), ('' '', ''Shop''), ('', then '', ''Acme''), ([], ''booq'')] [] \<and>
   tagged [(''sync '', ''booq''), ('' '', ''Shop''), ('', then '', ''Acme''), ([], ''booq'')] [] =
     ''sync #booq #Shop, then #Acme#booq'' \<and>
   hashtags ''sync #booq #Shop, then #Acme#booq'' = [''booq'', ''Shop'', ''Acme'', ''booq''] \<and>
   uniqueTags ToLower ''sync #booq #Shop, then #Acme#booq'' ''Shop'' = [''shop'', ''booq'', ''acme''] \<and>
   extractTags ToLower ''sync #booq #Shop, then #Acme#booq'' ''Shop'' =
     (''sync  , then'', ''shop,booq,acme'')"
proof -
  let ?segs = "[(''sync '', ''booq''), ('' '', ''Shop''), ('', then '', ''Acme''), ([], ''booq'')]"
  have ok: "tags_ok ?segs []"
    by code_simp
  have t: "tagged ?segs [] = ''sync #booq #Shop, then #Acme#booq''"
    by simp
  have k: "keep_first ((if ''Shop'' \<noteq> [] then [ToLower ''Shop''] else []) @ map (ToLower \<circ> snd) ?segs) =
      [''shop'', ''booq'', ''acme'']"
    by code_simp
  have r: "TrimSpace (concat (map fst ?segs) @ []) = ''sync  , then''"
    by code_simp
  have jn: "Join [''shop'', ''booq'', ''acme''] '','' = ''shop,booq,acme''"
    by code_simp
  show ?thesis
    using uniqueTags_first_seen[of ?segs "[]" ToLower "''Shop''" "[]"] ok
    unfolding t k r jn by simp
qed

section \<open>Properties of the calendar functions\<close>

lemma div_bounds:
  fixes d k m :: int
  assumes "0 < k" and "0 \<le> d" and "d \<le> m"
  shows "0 \<le> d div k" and "d div k \<le> m div k" and "k * (d div k) \<le> d"
    and "d < k * (d div k) + k"
proof -
  show "0 \<le> d div k" using assms by (simp add: pos_imp_zdiv_nonneg_iff)
  show "d div k \<le> m div k" using assms by (intro zdiv_mono1) auto
  have "d = k * (d div k) + d mod k" by simp
  moreover have "0 \<le> d mod k" "d mod k < k" using assms by simp_all
  ultimately show "k * (d div k) \<le> d" "d < k * (d div k) + k" by linarith+
qed

lemma daysBefore_vals:
  "daysBefore 0 = 0" "daysBefore 1 = 31" "daysBefore 2 = 59" "daysBefore 3 = 90"
  "daysBefore 4 = 120" "daysBefore 5 = 151" "daysBefore 6 = 181" "daysBefore 7 = 212"
  "daysBefore 8 = 243" "daysBefore 9 = 273" "daysBefore 10 = 304" "daysBefore 11 = 334"
  "daysBefore 12 = 365" "daysBefore (Suc 0) = 31"
  "daysBefore (Suc (Suc 0)) = 59" "daysBefore (Suc (Suc (Suc 0))) = 90"
  by (simp_all add: daysBefore_def)

text \<open>
  The table against the estimate \<open>day / 31\<close>: month \<open>k + 1\<close> begins on or before day
  \<open>31 * k\<close>, and month \<open>k + 3\<close> begins after day \<open>31 * k + 30\<close>, so the month of a day with
  quotient \<open>k\<close> is \<open>k + 1\<close> or \<open>k + 2\<close>.
\<close>

lemma daysBefore_table:
  "\<forall>k \<in> set [0..<12].
     daysBefore k \<le> 31 * int k \<and> (59 \<le> daysBefore (Suc k)) = (1 \<le> k) \<and>
     (k \<le> 1 \<longrightarrow> daysBefore (Suc k) \<le> 59) \<and>
     (k < 11 \<longrightarrow> 31 * int k + 31 \<le> daysBefore (Suc (Suc k))) \<and>
     (k = 11 \<longrightarrow> daysBefore (Suc k) = 365)"
  by code_simp

lemma monthOfDay_ok:
  fixes day :: int
  assumes "0 \<le> day" "day \<le> 364"
  shows "\<exists>m d. monthOfDay day = (m, d) \<and> 1 \<le> m \<and> m \<le> 12 \<and> 1 \<le> d \<and>
           d \<le> daysBefore m - daysBefore (m - 1) \<and> daysBefore (m - 1) + (d - 1) = day \<and>
           (59 \<le> day \<longleftrightarrow> 3 \<le> m)"
proof -
  define k where "k = nat (day div 31)"
  have q: "0 \<le> day div 31" "day div 31 \<le> 11" "31 * (day div 31) \<le> day"
    "day < 31 * (day div 31) + 31"
    using div_bounds[of 31 day 364] assms by simp_all
  have k: "int k = day div 31" "k < 12"
    using q(1,2) by (simp_all add: k_def)
  have r: "31 * int k \<le> day" "day < 31 * int k + 31"
    using q(3,4) unfolding k(1) by simp_all
  have "k \<in> set [0..<12]"
    using k(2) by (simp only: set_upt atLeastLessThan_iff) simp
  then have t: "daysBefore k \<le> 31 * int k" "(59 \<le> daysBefore (Suc k)) = (1 \<le> k)"
    "k \<le> 1 \<longrightarrow> daysBefore (Suc k) \<le> 59"
    "k < 11 \<longrightarrow> 31 * int k + 31 \<le> daysBefore (Suc (Suc k))"
    "k = 11 \<longrightarrow> daysBefore (Suc k) = 365"
    using daysBefore_table by blast+
  show ?thesis
  proof (cases "daysBefore (Suc k) \<le> day")
    case True
    have m: "monthOfDay day = (k + 2, day - daysBefore (Suc k) + 1)"
      using True by (simp add: monthOfDay_def Let_def k_def[symmetric])
    have k11: "k < 11"
      using True t(5) assms(2) k(2) by (cases "k = 11") auto
    then have "day < daysBefore (Suc (Suc k))"
      using t(4) r(2) by linarith
    moreover have "59 \<le> day \<longleftrightarrow> 1 \<le> k"
      using t(2) True r(2) by (cases "k = 0") auto
    ultimately show ?thesis
      unfolding m using True k11 by auto
  next
    case False
    have m: "monthOfDay day = (k + 1, day - daysBefore k + 1)"
      using False by (simp add: monthOfDay_def Let_def k_def[symmetric])
    have "59 \<le> day \<longleftrightarrow> 2 \<le> k"
      using t(3) False r(1) by (cases "k \<le> 1") auto
    then show ?thesis
      unfolding m using False t(1) r(1) k(2) by auto
  qed
qed

lemma div_unique_small:
  fixes q r k :: int
  assumes "0 \<le> r" and "r < k"
  shows "(k * q + r) div k = q"
  using assms by (simp add: div_pos_pos_trivial)

lemma absYear_parts:
  obtains n400 n100 n4 n1 yd :: int where
    "absYear t = (400 * n400 + 100 * n100 + 4 * n4 + n1 + 1, yd)"
    "t = 146097 * n400 + 36524 * n100 + 1461 * n4 + 365 * n1 + yd"
    "0 \<le> n100" "n100 \<le> 3" "0 \<le> n4" "n4 \<le> 24" "0 \<le> n1" "n1 \<le> 3"
    "0 \<le> yd" "yd \<le> 365"
    "yd = 365 \<longrightarrow> n1 = 3 \<and> (n4 = 24 \<longrightarrow> n100 = 3)"
proof -
  define n400 where "n400 = t div 146097"
  define d1 where "d1 = t - 146097 * n400"
  define q100 where "q100 = d1 div 36524"
  define n100 where "n100 = (if q100 = 4 then 3 else q100)"
  define d2 where "d2 = d1 - 36524 * n100"
  define n4 where "n4 = d2 div 1461"
  define d3 where "d3 = d2 - 1461 * n4"
  define q1 where "q1 = d3 div 365"
  define n1 where "n1 = (if q1 = 4 then 3 else q1)"
  define yd where "yd = d3 - 365 * n1"
  have d1: "0 \<le> d1" "d1 \<le> 146096"
    unfolding d1_def n400_def by (simp_all add: minus_mult_div_eq_mod)
  have q100: "0 \<le> q100" "q100 \<le> 4" "36524 * q100 \<le> d1" "d1 < 36524 * q100 + 36524"
    unfolding q100_def using div_bounds[of 36524 d1 146096] d1 by simp_all
  have n100: "0 \<le> n100" "n100 \<le> 3"
    unfolding n100_def using q100 by auto
  have d2: "0 \<le> d2" "d2 \<le> 36524" "d2 = 36524 \<longrightarrow> n100 = 3"
    unfolding d2_def n100_def using q100 d1 by auto
  have n4: "0 \<le> n4" "n4 \<le> 24" "1461 * n4 \<le> d2" "d2 < 1461 * n4 + 1461"
    unfolding n4_def using div_bounds[of 1461 d2 36524] d2 by simp_all
  have d3: "0 \<le> d3" "d3 \<le> 1460"
    unfolding d3_def using n4 by auto
  have q1: "0 \<le> q1" "q1 \<le> 4" "365 * q1 \<le> d3" "d3 < 365 * q1 + 365"
    unfolding q1_def using div_bounds[of 365 d3 1460] d3 by simp_all
  have n1: "0 \<le> n1" "n1 \<le> 3"
    unfolding n1_def using q1 by auto
  have yd: "0 \<le> yd" "yd \<le> 365" "yd = 365 \<longrightarrow> n1 = 3 \<and> d3 = 1460"
    unfolding yd_def n1_def using q1 d3 by auto
  have last: "yd = 365 \<longrightarrow> n1 = 3 \<and> (n4 = 24 \<longrightarrow> n100 = 3)"
    using yd(3) d2(3) d3_def by auto
  have a: "absYear t = (400 * n400 + 100 * n100 + 4 * n4 + n1 + 1, yd)"
    unfolding absYear_def Let_def n400_def d1_def q100_def n100_def d2_def n4_def d3_def
      q1_def n1_def yd_def by (rule refl)
  have t: "t = 146097 * n400 + 36524 * n100 + 1461 * n4 + 365 * n1 + yd"
    unfolding yd_def d3_def d2_def d1_def by simp
  show ?thesis
    using that[OF a t n100 n4(1,2) n1 yd(1,2) last] .
qed

lemma daysSinceEpoch_parts:
  fixes n400 n100 n4 n1 :: int
  assumes "0 \<le> n100" "n100 \<le> 3" "0 \<le> n4" "n4 \<le> 24" "0 \<le> n1" "n1 \<le> 3"
  shows "daysSinceEpoch (400 * n400 + 100 * n100 + 4 * n4 + n1 + 1) =
         146097 * n400 + 36524 * n100 + 1461 * n4 + 365 * n1"
proof -
  define y2 where "y2 = 4 * n4 + n1"
  define y1 where "y1 = 100 * n100 + y2"
  define y0 where "y0 = 400 * n400 + y1"
  have y2: "0 \<le> y2" "y2 < 100" using assms by (simp_all add: y2_def)
  have y1: "0 \<le> y1" "y1 < 400" using assms y2 by (simp_all add: y1_def)
  have a: "y0 div 400 = n400"
    unfolding y0_def using y1 by (rule div_unique_small)
  have a': "y0 - 400 * n400 = y1" by (simp add: y0_def)
  have b: "y1 div 100 = n100"
    unfolding y1_def using y2 by (rule div_unique_small)
  have b': "y1 - 100 * n100 = y2" by (simp add: y1_def)
  have c: "y2 div 4 = n4"
    unfolding y2_def using assms by (intro div_unique_small) auto
  have c': "y2 - 4 * n4 = n1" by (simp add: y2_def)
  have "daysSinceEpoch (y0 + 1) = 146097 * n400 + 36524 * n100 + 1461 * n4 + 365 * n1"
    unfolding daysSinceEpoch_def Let_def by (simp add: a a' b b' c c')
  moreover have "y0 + 1 = 400 * n400 + 100 * n100 + 4 * n4 + n1 + 1"
    by (simp add: y0_def y1_def y2_def)
  ultimately show ?thesis by simp
qed

lemma isLeap_parts:
  fixes n400 n100 n4 :: int
  assumes "0 \<le> n100" "n100 \<le> 3" "0 \<le> n4" "n4 \<le> 24" "n4 = 24 \<longrightarrow> n100 = 3"
  shows "isLeap (400 * n400 + 100 * n100 + 4 * n4 + 3 + 1)"
proof -
  let ?y = "400 * n400 + 100 * n100 + 4 * n4 + 3 + 1"
  have y4: "?y = 4 * (100 * n400 + 25 * n100 + n4 + 1)" by simp
  have m4: "?y mod 4 = 0" unfolding y4 by simp
  show ?thesis
  proof (cases "n4 = 24")
    case True
    then have "n100 = 3" using assms by simp
    then have "?y = 400 * (n400 + 1)" using True by simp
    then have "?y mod 400 = 0" by simp
    then show ?thesis using m4 by (simp add: isLeap_def)
  next
    case False
    have "?y = 100 * (4 * n400 + n100) + (4 * n4 + 4)" by simp
    then have "?y mod 100 = (4 * n4 + 4) mod 100"
      by (metis mod_mult_self4)
    also have "\<dots> = 4 * n4 + 4" using assms False by simp
    finally have "?y mod 100 \<noteq> 0" using assms by simp
    then show ?thesis using m4 by (simp add: isLeap_def)
  qed
qed

lemma absYear_yday:
  assumes h: "absYear t = (y, yd)"
  shows "0 \<le> yd \<and> yd \<le> 365 \<and> (yd = 365 \<longrightarrow> isLeap y) \<and> daysSinceEpoch y + yd = t"
proof -
  obtain n400 n100 n4 n1 yd' :: int where p:
    "absYear t = (400 * n400 + 100 * n100 + 4 * n4 + n1 + 1, yd')"
    "t = 146097 * n400 + 36524 * n100 + 1461 * n4 + 365 * n1 + yd'"
    "0 \<le> n100" "n100 \<le> 3" "0 \<le> n4" "n4 \<le> 24" "0 \<le> n1" "n1 \<le> 3"
    "0 \<le> yd'" "yd' \<le> 365"
    "yd' = 365 \<longrightarrow> n1 = 3 \<and> (n4 = 24 \<longrightarrow> n100 = 3)"
    by (rule absYear_parts)
  have y: "y = 400 * n400 + 100 * n100 + 4 * n4 + n1 + 1" and yd: "yd = yd'"
    using h p(1) by simp_all
  have "daysSinceEpoch y = 146097 * n400 + 36524 * n100 + 1461 * n4 + 365 * n1"
    unfolding y using p(3-8) by (rule daysSinceEpoch_parts)
  moreover have "yd = 365 \<longrightarrow> isLeap y"
    using isLeap_parts[of n100 n4 n400] p(3-6) p(11) y yd by auto
  ultimately show ?thesis
    using p(2,9,10) yd by simp
qed

lemma Date_month:
  assumes "1 \<le> m" "m \<le> 12"
  shows "Date y (int m) d =
         daysSinceEpoch y + daysBefore (m - 1) + (if isLeap y \<and> 3 \<le> m then 1 else 0) + (d - 1)"
proof -
  have a: "(int m - 1) div 12 = 0" using assms by (simp add: div_pos_pos_trivial)
  have b: "nat ((int m - 1) mod 12) = m - 1" using assms by (simp add: mod_pos_pos_trivial)
  have c: "3 \<le> m - 1 + 1 \<longleftrightarrow> 3 \<le> m" using assms by simp
  show ?thesis
    unfolding Date_def Let_def a b using c by simp
qed

lemma Date_jan1: "Date y 1 1 = daysSinceEpoch y"
  using Date_month[of 1 y 1] by (simp add: daysBefore_vals)

lemma Date_civil:
  assumes "civil t = (y, m, d)"
  shows "Date y (int m) d = t \<and> 1 \<le> m \<and> m \<le> 12 \<and> 1 \<le> d \<and> d \<le> daysIn m y"
proof -
  obtain yd where ay: "absYear t = (y, yd)" and md: "monthDay y yd = (m, d)"
    using assms by (auto simp: civil_def Let_def split: prod.splits)
  have yd: "0 \<le> yd" "yd \<le> 365" "yd = 365 \<longrightarrow> isLeap y" "daysSinceEpoch y + yd = t"
    using absYear_yday[OF ay] by simp_all
  show ?thesis
  proof (cases "isLeap y \<and> yd = 59")
    case True
    then have "m = 2" "d = 29" using md by (simp_all add: monthDay_def)
    then show ?thesis
      using True yd(4) Date_month[of 2 y 29] by (simp add: daysBefore_vals daysIn_def)
  next
    case False
    define day where "day = (if isLeap y \<and> yd > 59 then yd - 1 else yd)"
    have mo: "monthOfDay day = (m, d)"
      using md False by (simp add: monthDay_def day_def)
    have rng: "0 \<le> day" "day \<le> 364"
      using yd(1-3) by (auto simp: day_def)
    obtain m' d' where ok: "monthOfDay day = (m', d')" "1 \<le> m'" "m' \<le> 12" "1 \<le> d'"
      "d' \<le> daysBefore m' - daysBefore (m' - 1)" "daysBefore (m' - 1) + (d' - 1) = day"
      "59 \<le> day \<longleftrightarrow> 3 \<le> m'"
      using monthOfDay_ok[OF rng] by blast
    have eq: "m' = m" "d' = d" using ok(1) mo by simp_all
    have adj: "(if isLeap y \<and> 3 \<le> m then 1 else 0) + day = yd"
      using ok(7) False yd(1) unfolding eq day_def by (auto split: if_splits)
    have "Date y (int m) d = daysSinceEpoch y + daysBefore (m - 1) + (if isLeap y \<and> 3 \<le> m then 1 else 0) + (d - 1)"
      using ok(2,3) unfolding eq by (rule Date_month)
    then have "Date y (int m) d = t"
      using ok(6) adj yd(4) unfolding eq by linarith
    moreover have "d \<le> daysIn m y"
      using ok(5) unfolding eq by (auto simp: daysIn_def daysBefore_vals)
    ultimately show ?thesis
      using ok(2-4) unfolding eq by simp
  qed
qed

lemma Date_days: "Date y m (d + k) = Date y m d + k"
  by (simp add: Date_def Let_def)

lemma ISOWeek_range: "ISOWeek t = (y, w) \<Longrightarrow> 1 \<le> w \<and> w \<le> 53"
proof -
  assume h: "ISOWeek t = (y, w)"
  define t' where "t' = t + (if 4 - Weekday t = 4 then - 3 else 4 - Weekday t)"
  obtain y' yd where a: "absYear t' = (y', yd)" by (cases "absYear t'") auto
  have w: "w = yd div 7 + 1"
    using h a by (simp add: ISOWeek_def Let_def t'_def)
  have "0 \<le> yd" "yd \<le> 365" using absYear_yday[OF a] by simp_all
  then have "0 \<le> yd div 7" "yd div 7 \<le> 365 div 7"
    using div_bounds[of 7 yd 365] by simp_all
  then show ?thesis using w by simp
qed

text \<open>
  The day count and the calendar agree in both directions: a year has 365 or 366 days,
  so the year of a day count is unique; the months of a year follow each other without
  gap or overlap, so its month and day are unique; and the day count after a date is the
  day count of the day after it.
\<close>

lemma year_parts:
  fixes y :: int
  obtains a b c e :: int where "y = 400 * a + 100 * b + 4 * c + e + 1"
    "0 \<le> b" "b \<le> 3" "0 \<le> c" "c \<le> 24" "0 \<le> e" "e \<le> 3"
proof -
  define y0 where "y0 = y - 1"
  define r1 where "r1 = y0 mod 400"
  define r2 where "r2 = r1 mod 100"
  have r1: "0 \<le> r1" "r1 \<le> 399" by (simp_all add: r1_def)
  have r2: "0 \<le> r2" "r2 \<le> 99" by (simp_all add: r2_def)
  have b: "0 \<le> r1 div 100" "r1 div 100 \<le> 3"
    using div_bounds[of 100 r1 399] r1 by simp_all
  have c: "0 \<le> r2 div 4" "r2 div 4 \<le> 24"
    using div_bounds[of 4 r2 99] r2 by simp_all
  have e: "0 \<le> r2 mod 4" "r2 mod 4 \<le> 3" by simp_all
  have "y0 = 400 * (y0 div 400) + r1" by (simp add: r1_def)
  also have "r1 = 100 * (r1 div 100) + r2" by (simp add: r2_def)
  also have "r2 = 4 * (r2 div 4) + r2 mod 4" by simp
  finally have "y = 400 * (y0 div 400) + 100 * (r1 div 100) + 4 * (r2 div 4) + r2 mod 4 + 1"
    by (simp add: y0_def)
  then show ?thesis using that b c e by blast
qed

lemma mod_parts:
  fixes a b c e :: int
  assumes "0 \<le> b" "b \<le> 3" "0 \<le> c" "c \<le> 24" "0 \<le> e" "e \<le> 3"
  shows "(400 * a + 100 * b + 4 * c + e) mod 4 = e"
    and "(400 * a + 100 * b + 4 * c + e) mod 100 = 4 * c + e"
    and "(400 * a + 100 * b + 4 * c + e) mod 400 = 100 * b + 4 * c + e"
proof -
  have "400 * a + 100 * b + 4 * c + e = 4 * (100 * a + 25 * b + c) + e" by simp
  then have "(400 * a + 100 * b + 4 * c + e) mod 4 = e mod 4"
    by (metis mod_mult_self4)
  then show "(400 * a + 100 * b + 4 * c + e) mod 4 = e" using assms by simp
  have "400 * a + 100 * b + 4 * c + e = 100 * (4 * a + b) + (4 * c + e)" by simp
  then have "(400 * a + 100 * b + 4 * c + e) mod 100 = (4 * c + e) mod 100"
    by (metis mod_mult_self4)
  then show "(400 * a + 100 * b + 4 * c + e) mod 100 = 4 * c + e" using assms by simp
  have "400 * a + 100 * b + 4 * c + e = 400 * a + (100 * b + 4 * c + e)" by simp
  then have "(400 * a + 100 * b + 4 * c + e) mod 400 = (100 * b + 4 * c + e) mod 400"
    by (metis mod_mult_self4)
  then show "(400 * a + 100 * b + 4 * c + e) mod 400 = 100 * b + 4 * c + e" using assms by simp
qed

lemma daysSinceEpoch_succ:
  "daysSinceEpoch (y + 1) = daysSinceEpoch y + (if isLeap y then 366 else 365)"
proof -
  obtain a b c e :: int where y: "y = 400 * a + 100 * b + 4 * c + e + 1"
    and r: "0 \<le> b" "b \<le> 3" "0 \<le> c" "c \<le> 24" "0 \<le> e" "e \<le> 3"
    by (rule year_parts)
  have d: "daysSinceEpoch y = 146097 * a + 36524 * b + 1461 * c + 365 * e"
    unfolding y using r by (rule daysSinceEpoch_parts)
  consider (plain) "e < 3" | (four) "e = 3" "c < 24" | (hundred) "e = 3" "c = 24" "b < 3"
    | (cycle) "e = 3" "c = 24" "b = 3"
    using r by linarith
  then show ?thesis
  proof cases
    case plain
    have "y + 1 = 400 * a + 100 * b + 4 * c + (e + 1) + 1" by (simp add: y)
    then have "daysSinceEpoch (y + 1) = 146097 * a + 36524 * b + 1461 * c + 365 * (e + 1)"
      using daysSinceEpoch_parts[of b c "e + 1" a] r plain by simp
    moreover have "y mod 4 = e + 1"
      using mod_parts(1)[of b c "e + 1" a] r plain by (simp add: y algebra_simps)
    then have "\<not> isLeap y" using r by (simp add: isLeap_def)
    ultimately show ?thesis using d by simp
  next
    case four
    have "y + 1 = 400 * a + 100 * b + 4 * (c + 1) + 0 + 1" by (simp add: y four)
    then have "daysSinceEpoch (y + 1) = 146097 * a + 36524 * b + 1461 * (c + 1) + 365 * 0"
      using daysSinceEpoch_parts[of b "c + 1" 0 a] r four by simp
    moreover have "isLeap y"
      using isLeap_parts[of b c a] r four by (simp add: y)
    ultimately show ?thesis using d four by simp
  next
    case hundred
    have "y + 1 = 400 * a + 100 * (b + 1) + 4 * 0 + 0 + 1" by (simp add: y hundred)
    then have "daysSinceEpoch (y + 1) = 146097 * a + 36524 * (b + 1) + 1461 * 0 + 365 * 0"
      using daysSinceEpoch_parts[of "b + 1" 0 0 a] r hundred by simp
    moreover have "y = 400 * a + 100 * (b + 1) + 4 * 0 + 0" by (simp add: y hundred)
    then have "y mod 100 = 0" "y mod 400 = 100 * (b + 1)"
      using mod_parts(2,3)[of "b + 1" 0 0 a] r hundred by simp_all
    then have "\<not> isLeap y" using r by (simp add: isLeap_def)
    ultimately show ?thesis using d hundred by simp
  next
    case cycle
    have "y + 1 = 400 * (a + 1) + 100 * 0 + 4 * 0 + 0 + 1" by (simp add: y cycle)
    then have "daysSinceEpoch (y + 1) = 146097 * (a + 1) + 36524 * 0 + 1461 * 0 + 365 * 0"
      using daysSinceEpoch_parts[of 0 0 0 "a + 1"] by simp
    moreover have "isLeap y"
      using isLeap_parts[of b c a] r cycle by (simp add: y)
    ultimately show ?thesis using d cycle by simp
  qed
qed

lemma daysSinceEpoch_mono: "y \<le> y' \<Longrightarrow> daysSinceEpoch y \<le> daysSinceEpoch y'"
proof (induction y' rule: int_ge_induct)
  case base
  then show ?case by simp
next
  case (step i)
  then show ?case using daysSinceEpoch_succ[of i] by (simp split: if_splits)
qed

lemma absYear_unique:
  assumes "0 \<le> yd" "yd \<le> 365" "yd = 365 \<longrightarrow> isLeap y"
  shows "absYear (daysSinceEpoch y + yd) = (y, yd)"
proof -
  obtain y' yd' where a: "absYear (daysSinceEpoch y + yd) = (y', yd')"
    by (cases "absYear (daysSinceEpoch y + yd)") auto
  have p: "0 \<le> yd'" "yd' \<le> 365" "yd' = 365 \<longrightarrow> isLeap y'"
    "daysSinceEpoch y' + yd' = daysSinceEpoch y + yd"
    using absYear_yday[OF a] by simp_all
  have "\<not> y < y'"
  proof
    assume "y < y'"
    then have "daysSinceEpoch (y + 1) \<le> daysSinceEpoch y'"
      by (intro daysSinceEpoch_mono) simp
    then show False
      using daysSinceEpoch_succ[of y] assms p by (auto split: if_splits)
  qed
  moreover have "\<not> y' < y"
  proof
    assume "y' < y"
    then have "daysSinceEpoch (y' + 1) \<le> daysSinceEpoch y"
      by (intro daysSinceEpoch_mono) simp
    then show False
      using daysSinceEpoch_succ[of y'] assms p by (auto split: if_splits)
  qed
  ultimately have "y' = y" by simp
  then show ?thesis using a p(4) by simp
qed

lemma daysBefore_steps:
  "\<forall>k \<in> set [0..<12]. daysBefore k < daysBefore (Suc k) \<and>
      (k = 1 \<longrightarrow> daysBefore (Suc k) - daysBefore k = 28)"
  by code_simp

lemma cum_step:
  assumes "1 \<le> m" "m \<le> 12"
  shows "cum y m = cum y (m - 1) + daysIn m y" and "1 \<le> daysIn m y"
proof -
  have "m - 1 \<in> set [0..<12]" using assms by (simp only: set_upt atLeastLessThan_iff) simp
  then have t: "daysBefore (m - 1) < daysBefore (Suc (m - 1))"
    "m - 1 = 1 \<longrightarrow> daysBefore (Suc (m - 1)) - daysBefore (m - 1) = 28"
    using daysBefore_steps by blast+
  have s: "Suc (m - 1) = m" using assms by simp
  show "cum y m = cum y (m - 1) + daysIn m y"
    using t assms unfolding s by (cases "m = 2") (auto simp: cum_def daysIn_def)
  show "1 \<le> daysIn m y"
    using t assms unfolding s by (auto simp: daysIn_def)
qed

lemma cum_mono:
  assumes "k \<le> k'" "k' \<le> 12"
  shows "cum y k \<le> cum y k'"
  using assms
proof (induction k' rule: dec_induct)
  case base
  then show ?case by simp
next
  case (step n)
  then show ?case
    using cum_step[of "Suc n" y] by simp
qed

lemma Date_cum:
  assumes "validDate (y, m, d)"
  shows "Date y (int m) d = daysSinceEpoch y + cum y (m - 1) + (d - 1)"
    and "cum y (m - 1) + (d - 1) < cum y m"
proof -
  have v: "1 \<le> m" "m \<le> 12" "1 \<le> d" "d \<le> daysIn m y"
    using assms by (simp_all add: validDate_def)
  have "(3 \<le> m) = (2 \<le> m - 1)" using v by auto
  then show "Date y (int m) d = daysSinceEpoch y + cum y (m - 1) + (d - 1)"
    using Date_month[OF v(1,2), of y d] by (simp add: cum_def)
  show "cum y (m - 1) + (d - 1) < cum y m"
    using cum_step(1)[OF v(1,2), of y] v(4) by simp
qed

lemma Date_inj_month:
  assumes "validDate (y, m, d)" "validDate (y, m', d')" "Date y (int m) d = Date y (int m') d'"
  shows "m = m' \<and> d = d'"
proof -
  have v: "1 \<le> m" "m \<le> 12" "1 \<le> d" "1 \<le> m'" "m' \<le> 12" "1 \<le> d'"
    using assms by (simp_all add: validDate_def)
  have e: "cum y (m - 1) + (d - 1) = cum y (m' - 1) + (d' - 1)"
    using assms(3) Date_cum(1)[OF assms(1)] Date_cum(1)[OF assms(2)] by simp
  have "\<not> m < m'"
  proof
    assume "m < m'"
    then have "cum y m \<le> cum y (m' - 1)" using v by (intro cum_mono) simp_all
    then show False using Date_cum(2)[OF assms(1)] e v by simp
  qed
  moreover have "\<not> m' < m"
  proof
    assume "m' < m"
    then have "cum y m' \<le> cum y (m - 1)" using v by (intro cum_mono) simp_all
    then show False using Date_cum(2)[OF assms(2)] e v by simp
  qed
  ultimately have "m = m'" by simp
  then show ?thesis using e by simp
qed

lemma civil_valid: "validDate (civil t)"
proof -
  obtain y m d where c: "civil t = (y, m, d)" by (cases "civil t") auto
  show ?thesis using Date_civil[OF c] by (simp add: c validDate_def)
qed

lemma civil_Date:
  assumes "validDate (y, m, d)"
  shows "civil (Date y (int m) d) = (y, m, d)"
proof -
  define yd where "yd = cum y (m - 1) + (d - 1)"
  have v: "1 \<le> m" "m \<le> 12" "1 \<le> d"
    using assms by (simp_all add: validDate_def)
  have t: "Date y (int m) d = daysSinceEpoch y + yd"
    using Date_cum(1)[OF assms] by (simp add: yd_def)
  have "0 \<le> cum y (m - 1)"
    using cum_mono[of 0 "m - 1" y] v by (simp add: cum_def daysBefore_vals)
  then have lo: "0 \<le> yd" using v by (simp add: yd_def)
  have "cum y m \<le> cum y 12" using v by (intro cum_mono) simp_all
  then have hi: "yd < 365 + (if isLeap y then 1 else 0)"
    using Date_cum(2)[OF assms] by (simp add: yd_def cum_def daysBefore_vals)
  have a: "absYear (Date y (int m) d) = (y, yd)"
    unfolding t using lo hi by (intro absYear_unique) (auto split: if_splits)
  obtain m' d' where md: "monthDay y yd = (m', d')" by (cases "monthDay y yd") auto
  have c: "civil (Date y (int m) d) = (y, m', d')"
    by (simp add: civil_def a md)
  have "Date y (int m') d' = Date y (int m) d" "validDate (y, m', d')"
    using Date_civil[OF c] by (simp_all add: validDate_def)
  then have "m = m' \<and> d = d'"
    using Date_inj_month[OF assms, of m' d'] by simp
  then show ?thesis using c by simp
qed

lemma Date_nextDay:
  assumes "validDate (y, m, d)" and "nextDay (y, m, d) = (y', m', d')"
  shows "validDate (y', m', d') \<and> Date y' (int m') d' = Date y (int m) d + 1"
proof -
  have v: "1 \<le> m" "m \<le> 12" "1 \<le> d" "d \<le> daysIn m y"
    using assms(1) by (simp_all add: validDate_def)
  consider (day) "d < daysIn m y" | (month) "d = daysIn m y" "m < 12" | (year) "d = daysIn m y" "m = 12"
    using v by linarith
  then show ?thesis
  proof cases
    case day
    then have n: "y' = y" "m' = m" "d' = d + 1" using assms(2) by (simp_all add: nextDay_def)
    have "validDate (y, m, d + 1)" using v day by (simp add: validDate_def)
    then show ?thesis
      unfolding n using Date_cum(1)[of y m "d + 1"] Date_cum(1)[OF assms(1)] by simp
  next
    case month
    then have n: "y' = y" "m' = m + 1" "d' = 1" using assms(2) by (simp_all add: nextDay_def)
    have w: "validDate (y, m + 1, 1)"
      using cum_step(2)[of "m + 1" y] month by (simp add: validDate_def)
    show ?thesis
      unfolding n using w Date_cum(1)[OF w] Date_cum(1)[OF assms(1)] cum_step(1)[OF v(1,2), of y]
        month by simp
  next
    case year
    then have n: "y' = y + 1" "m' = 1" "d' = 1" using assms(2) by (simp_all add: nextDay_def)
    have w: "validDate (y + 1, 1, 1)"
      using cum_step(2)[of 1 "y + 1"] by (simp add: validDate_def)
    have "cum y 12 = cum y 11 + daysIn 12 y" using cum_step(1)[of 12 y] by simp
    then have "Date y 12 d = daysSinceEpoch y + cum y 12 - 1"
      using Date_cum(1)[OF assms(1)] year by simp
    then have "Date y 12 d + 1 = daysSinceEpoch (y + 1)"
      using daysSinceEpoch_succ[of y] by (simp add: cum_def daysBefore_vals)
    then show ?thesis
      unfolding n using w Date_jan1[of "y + 1"] year by simp
  qed
qed

lemma civil_succ: "civil (t + 1) = nextDay (civil t)"
proof -
  obtain y m d where c: "civil t = (y, m, d)" by (cases "civil t") auto
  obtain y' m' d' where n: "nextDay (y, m, d) = (y', m', d')" by (cases "nextDay (y, m, d)") auto
  have v: "validDate (y, m, d)" using civil_valid[of t] by (simp add: c)
  have t: "Date y (int m) d = t" using Date_civil[OF c] by simp
  have "validDate (y', m', d')" "Date y' (int m') d' = t + 1"
    using Date_nextDay[OF v n] t by simp_all
  then have "civil (t + 1) = (y', m', d')"
    using civil_Date[of y' m' d'] by simp
  then show ?thesis by (simp add: c n)
qed

section \<open>Properties of the week arithmetic\<close>

lemma weekRegex_shape:
  "weekRegex s \<Longrightarrow> \<exists>y1 y2 y3 y4 w1 w2. s = [y1, y2, y3, y4, CHR ''-'', CHR ''W'', w1, w2] \<and>
     is_digit y1 \<and> is_digit y2 \<and> is_digit y3 \<and> is_digit y4 \<and> is_digit w1 \<and> is_digit w2"
  by (cases s rule: weekRegex.cases) simp_all

lemma digit_val_range: "0 \<le> digit_val c \<and> digit_val c \<le> 10"
proof -
  have "length (takeWhile (\<lambda>d. d \<noteq> c) ''0123456789'') \<le> length ''0123456789''"
    by (rule length_takeWhile_le)
  then show ?thesis by (simp add: digit_val_def)
qed

lemma atoi4: "atoi [a, b, c, d] = 1000 * digit_val a + 100 * digit_val b + 10 * digit_val c + digit_val d"
  by (simp add: atoi_def)

lemma atoi2: "atoi [a, b] = 10 * digit_val a + digit_val b"
  by (simp add: atoi_def)

lemma not_digit: "\<not> is_digit (CHR ''-'')" "\<not> is_digit (CHR ''W'')" "\<not> is_digit (CHR ''+'')"
  by (simp_all add: is_digit_def)

lemma digit_not_sign: "is_digit c \<Longrightarrow> c \<noteq> CHR ''-'' \<and> c \<noteq> CHR ''+''"
  using not_digit by auto

lemma digit_not_underscore: "is_digit c \<Longrightarrow> c \<noteq> CHR ''_''"
  by (auto simp: is_digit_def)

lemma SkipSpace_plain:
  assumes "s \<noteq> []" "hd s \<notin> hd ` set spaces"
  shows "SkipSpace s = Some s"
proof -
  have "[CHR 0x0A] \<in> set spaces"
    by code_simp
  then have "hd [CHR 0x0A] \<in> hd ` set spaces"
    by (rule imageI)
  then have "take 1 s \<noteq> [CHR 0x0A]"
    using assms by (cases s) auto
  then show ?thesis
    using spacePrefix_None[OF assms] by (subst SkipSpace.simps) simp
qed

lemma SkipSpace_digit: "is_digit a \<Longrightarrow> SkipSpace (a # r) = Some (a # r)"
  using digit_not_space[of a] by (intro SkipSpace_plain) simp_all

lemma scan_d4:
  assumes "is_digit a" "is_digit b" "is_digit c" "is_digit d" "\<not> is_digit e"
    "e \<noteq> CHR ''_''"
  shows "scan_d (a # b # c # d # e # r) = Some (atoi [a, b, c, d], e # r)"
proof -
  have v: "0 \<le> atoi [a, b, c, d]" "atoi [a, b, c, d] \<le> 11110"
    using digit_val_range[of a] digit_val_range[of b] digit_val_range[of c] digit_val_range[of d]
    unfolding atoi4 by linarith+
  have p: "(2::int) ^ 63 = 9223372036854775808" by simp
  have u: "a \<noteq> CHR ''_''" "b \<noteq> CHR ''_''" "c \<noteq> CHR ''_''" "d \<noteq> CHR ''_''"
    using assms(1-4) by (simp_all add: digit_not_underscore)
  show ?thesis
    using assms digit_not_sign[OF assms(1)] v u
    unfolding scan_d_def p SkipSpace_digit[OF assms(1)]
    by (simp add: Let_def del: power_numeral)
qed

lemma scan_d2:
  assumes "is_digit a" "is_digit b"
  shows "scan_d [a, b] = Some (atoi [a, b], [])"
proof -
  have v: "0 \<le> atoi [a, b]" "atoi [a, b] \<le> 110"
    using digit_val_range[of a] digit_val_range[of b]
    unfolding atoi2 by linarith+
  have p: "(2::int) ^ 63 = 9223372036854775808" by simp
  have u: "a \<noteq> CHR ''_''" "b \<noteq> CHR ''_''"
    using assms by (simp_all add: digit_not_underscore)
  show ?thesis
    using assms digit_not_sign[OF assms(1)] v u
    unfolding scan_d_def p SkipSpace_digit[OF assms(1)]
    by (simp add: Let_def del: power_numeral)
qed

lemma scanWeek_key:
  assumes "weekRegex week"
  shows "scanWeek week = (atoi (take 4 week), atoi (drop 6 week))"
proof -
  obtain y1 y2 y3 y4 w1 w2 where w: "week = [y1, y2, y3, y4, CHR ''-'', CHR ''W'', w1, w2]"
    and d: "is_digit y1" "is_digit y2" "is_digit y3" "is_digit y4" "is_digit w1" "is_digit w2"
    using weekRegex_shape[OF assms] by blast
  have a: "scan_d week = Some (atoi [y1, y2, y3, y4], [CHR ''-'', CHR ''W'', w1, w2])"
    unfolding w using d(1-4) not_digit(1) by (rule scan_d4) simp
  have b: "scan_d [w1, w2] = Some (atoi [w1, w2], [])"
    using d(5,6) by (rule scan_d2)
  show ?thesis
    unfolding scanWeek_def a using b by (simp add: w)
qed

lemma Weekday_range: "0 \<le> Weekday t \<and> Weekday t \<le> 6"
  by (simp add: Weekday_def)

lemma daysToMonday_monday:
  "Weekday (jan1 + daysToMonday jan1) = 1 \<and> daysToMonday jan1 \<le> 0 \<and> - 6 \<le> daysToMonday jan1"
proof -
  define r where "r = (jan1 + 1) mod 7"
  have r: "0 \<le> r" "r \<le> 6" by (simp_all add: r_def)
  have d: "daysToMonday jan1 = (if r = 0 then - 6 else 1 - r)"
    using r by (auto simp: daysToMonday_def Weekday_def r_def Let_def)
  have "(jan1 + daysToMonday jan1 + 1) mod 7 = ((jan1 + 1) mod 7 + daysToMonday jan1) mod 7"
    by (simp add: mod_simps algebra_simps)
  also have "\<dots> = (r + daysToMonday jan1) mod 7" by (simp add: r_def)
  also have "\<dots> = 1"
    using r unfolding d by (auto simp: mod_pos_pos_trivial)
  finally have "Weekday (jan1 + daysToMonday jan1) = 1" by (simp add: Weekday_def)
  then show ?thesis using r d by auto
qed

lemma dayOffsets_days: "map dayOffsets days = [0, 1, 2, 3, 4, 5, 6]"
  by (simp add: dayOffsets_def dayMap_def days_def upt_rec)

lemma civil_succ_at: "s = t + 1 \<Longrightarrow> civil s = nextDay (civil t)"
  by (simp add: civil_succ)

lemma daysIn_le: "1 \<le> m \<Longrightarrow> m \<le> 12 \<Longrightarrow> daysIn m y \<le> 31"
proof -
  have "\<forall>k \<in> set [1..<13]. daysBefore k - daysBefore (k - 1) \<le> 31"
    by code_simp
  moreover assume "1 \<le> m" "m \<le> 12"
  then have "m \<in> set [1..<13]" by simp
  ultimately have "daysBefore m - daysBefore (m - 1) \<le> 31" by blast
  then show ?thesis by (simp add: daysIn_def)
qed

lemma wrap64_id: "- (2 ^ 63) \<le> x \<Longrightarrow> x < 2 ^ 63 \<Longrightarrow> wrap64 x = x"
  by (simp add: wrap64_def)

text \<open>
  In a location whose offset never changes, \<open>time.Date\<close> is the wall time less the
  offset, and \<open>AddDate\<close> moves a midnight by whole days.
\<close>

lemma DateIn_fixed:
  assumes "\<And>t. fst (loc t) = off"
  shows "DateIn loc y m d c = 86400 * Date y m d + c - off"
proof -
  define unix where "unix = 86400 * Date y m d + c"
  obtain off' start end' where l: "loc unix = (off', start, end')"
    by (cases "loc unix") auto
  have o: "off' = off" using assms[of unix] by (simp add: l)
  have u: "fst (loc (unix - off)) = off" by (rule assms)
  show ?thesis
    unfolding DateIn_def unix_def[symmetric] Let_def l o using u by simp
qed

lemma local_fixed:
  assumes "\<And>t. fst (loc t) = off"
  shows "localDay loc (86400 * D - off) = D" "localClock loc (86400 * D - off) = 0"
  by (simp_all add: localDay_def localClock_def assms)

lemma AddDate_fixed:
  assumes "\<And>t. fst (loc t) = off" "- (2 ^ 62) \<le> k" "k \<le> 2 ^ 62"
  shows "AddDate loc (86400 * D - off) k = 86400 * (D + k) - off"
proof -
  obtain y m d where c: "civil D = (y, m, d)" by (cases "civil D") auto
  have v: "Date y (int m) d = D" "1 \<le> m" "m \<le> 12" "1 \<le> d" "d \<le> daysIn m y"
    using Date_civil[OF c] by simp_all
  have d: "d \<le> 31" using v(5) daysIn_le[OF v(2,3), of y] by linarith
  have w: "wrap64 (d + k) = d + k"
    using assms(2,3) v(4) d by (intro wrap64_id) simp_all
  show ?thesis
    unfolding AddDate_def local_fixed[of loc off, OF assms(1)] c
    by (simp add: w DateIn_fixed[of loc off, OF assms(1)] Date_days v(1))
qed

lemma AddDate_at:
  "civil (localDay loc t) = (y, m, d) \<Longrightarrow> localClock loc t = c \<Longrightarrow> wrap64 (d + k) = e \<Longrightarrow>
   AddDate loc t k = DateIn loc y (int m) e c"
  by (simp add: AddDate_def)

text \<open>
  Where the offset of the local zone never changes, the week arithmetic is what the
  specification says. For a week key \<open>YYYY-W##\<close>, with \<open>jan1\<close> the first of January of
  the year of the key, \<open>firstMonday\<close> is a Monday, on or before \<open>jan1\<close> and less than
  seven days before it: the code steps back, never forward. The Monday of the week is
  the local midnight of \<open>firstMonday\<close> plus \<open>weekNum - 1\<close> weeks, and the local dates of
  \<open>monday\<close> to \<open>sunday\<close> are that Monday plus 0 to 6 days: seven days in a row, the
  calendar date of each the day after the calendar date of the one before. \<open>dayDate\<close>
  prints these dates.
\<close>

lemma week_days_fixed_offset:
  assumes "weekRegex week" "\<And>t. fst (loc t) = off"
  shows "(let year = atoi (take 4 week); weekNum = atoi (drop 6 week);
              jan1 = Date year 1 1;
              firstMonday = jan1 + daysToMonday jan1;
              monday = firstMonday + (weekNum - 1) * 7
          in civil jan1 = (year, 1, 1) \<and>
             Weekday firstMonday = 1 \<and> firstMonday \<le> jan1 \<and> jan1 - firstMonday < 7 \<and>
             weekMonday loc week = 86400 * monday - off \<and>
             map (localDay loc \<circ> targetDate loc week) days =
               [monday, monday + 1, monday + 2, monday + 3, monday + 4, monday + 5, monday + 6] \<and>
             map (civil \<circ> localDay loc \<circ> targetDate loc week) (tl days) =
               map (nextDay \<circ> civil \<circ> localDay loc \<circ> targetDate loc week) (butlast days) \<and>
             map (dayDate loc week) days =
               map dateFormat
                 [monday, monday + 1, monday + 2, monday + 3, monday + 4, monday + 5, monday + 6] \<and>
             weekDateRange loc week = dateFormat monday @ '' - '' @ dateFormat (monday + 6))"
proof -
  define year where "year = atoi (take 4 week)"
  define weekNum where "weekNum = atoi (drop 6 week)"
  define jan1 where "jan1 = Date year 1 1"
  define monday where "monday = jan1 + daysToMonday jan1 + (weekNum - 1) * 7"
  obtain y1 y2 y3 y4 w1 w2 where w: "week = [y1, y2, y3, y4, CHR ''-'', CHR ''W'', w1, w2]"
    using weekRegex_shape[OF assms(1)] by blast
  have wn: "0 \<le> weekNum" "weekNum \<le> 110"
    using digit_val_range[of w1] digit_val_range[of w2]
    unfolding weekNum_def w by (simp_all add: atoi2)
  have s: "scanWeek week = (year, weekNum)"
    using scanWeek_key[OF assms(1)] by (simp add: year_def weekNum_def)
  have dm: "Weekday (jan1 + daysToMonday jan1) = 1" "daysToMonday jan1 \<le> 0"
    "- 6 \<le> daysToMonday jan1"
    using daysToMonday_monday[of jan1] by simp_all
  have j: "DateIn loc year 1 1 0 = 86400 * jan1 - off"
    by (simp add: DateIn_fixed[of loc off, OF assms(2)] jan1_def)
  have w7: "wrap64 ((weekNum - 1) * 7) = (weekNum - 1) * 7"
    using wn by (intro wrap64_id) simp_all
  have f: "AddDate loc (86400 * jan1 - off) (daysToMonday jan1) =
      86400 * (jan1 + daysToMonday jan1) - off"
    using dm(2,3) by (intro AddDate_fixed assms(2)) simp_all
  have g: "AddDate loc (86400 * (jan1 + daysToMonday jan1) - off) ((weekNum - 1) * 7) =
      86400 * monday - off"
    unfolding monday_def using wn by (intro AddDate_fixed assms(2)) simp_all
  have m: "weekMonday loc week = 86400 * monday - off"
    unfolding weekMonday_def s Let_def prod.case j local_fixed[of loc off, OF assms(2)] f w7 g ..
  have a: "\<And>k. - 6 \<le> k \<Longrightarrow> k \<le> 6 \<Longrightarrow>
      localDay loc (AddDate loc (86400 * monday - off) k) = monday + k"
  proof -
    fix k :: int assume "- 6 \<le> k" "k \<le> 6"
    then have "AddDate loc (86400 * monday - off) k = 86400 * (monday + k) - off"
      by (intro AddDate_fixed assms(2)) simp_all
    then show "localDay loc (AddDate loc (86400 * monday - off) k) = monday + k"
      using local_fixed(1)[of loc off "monday + k", OF assms(2)] by simp
  qed
  have t: "map (localDay loc \<circ> targetDate loc week) days =
      map (\<lambda>k. localDay loc (AddDate loc (86400 * monday - off) k)) (map dayOffsets days)"
    by (simp add: targetDate_def m comp_def)
  have t': "map (localDay loc \<circ> targetDate loc week) days =
      [monday, monday + 1, monday + 2, monday + 3, monday + 4, monday + 5, monday + 6]"
    unfolding t dayOffsets_days using a[of 0] a[of 1] a[of 2] a[of 3] a[of 4] a[of 5] a[of 6]
    by simp
  have cs: "civil (monday + 1) = nextDay (civil monday)"
    "civil (monday + 2) = nextDay (civil (monday + 1))"
    "civil (monday + 3) = nextDay (civil (monday + 2))"
    "civil (monday + 4) = nextDay (civil (monday + 3))"
    "civil (monday + 5) = nextDay (civil (monday + 4))"
    "civil (monday + 6) = nextDay (civil (monday + 5))"
    by (rule civil_succ_at, simp)+
  have "map (civil \<circ> localDay loc \<circ> targetDate loc week) (tl days) =
      map civil (tl (map (localDay loc \<circ> targetDate loc week) days))"
    by (simp add: map_tl comp_def)
  moreover have "map (nextDay \<circ> civil \<circ> localDay loc \<circ> targetDate loc week) (butlast days) =
      map (nextDay \<circ> civil) (butlast (map (localDay loc \<circ> targetDate loc week) days))"
    by (simp add: map_butlast comp_def)
  ultimately have c: "map (civil \<circ> localDay loc \<circ> targetDate loc week) (tl days) =
      map (nextDay \<circ> civil \<circ> localDay loc \<circ> targetDate loc week) (butlast days)"
    unfolding t' by (simp add: cs)
  have cj: "civil jan1 = (year, 1, 1)"
    unfolding jan1_def using civil_Date[of year 1 1]
    by (simp add: validDate_def daysIn_def daysBefore_vals)
  have "map (dayDate loc week) days =
      map dateFormat (map (localDay loc \<circ> targetDate loc week) days)"
    by (simp add: dayDate_def Format_def comp_def)
  then have fm: "map (dayDate loc week) days =
      map dateFormat
        [monday, monday + 1, monday + 2, monday + 3, monday + 4, monday + 5, monday + 6]"
    unfolding t' .
  have r: "weekDateRange loc week = dateFormat monday @ '' - '' @ dateFormat (monday + 6)"
    unfolding weekDateRange_def m Let_def Format_def
    using a[of 6] local_fixed(1)[of loc off monday, OF assms(2)] by simp
  show ?thesis
    using dm m t' c cj fm r
    unfolding Let_def year_def[symmetric] weekNum_def[symmetric] jan1_def[symmetric]
      monday_def[symmetric]
    by simp
qed

text \<open>
  C3: the dates of \<open>monday\<close> to \<open>sunday\<close> of a week key are not seven consecutive
  calendar dates in every zone. In the zone of the Azores the local midnight of
  Sunday, 30 March 2025 does not exist (the clock goes from 23:59:59 to 01:00:00), and
  \<open>time.Date\<close> gives for it the instant 00:00 UTC, which is 23:00 of Saturday there:
  for the week \<open>2025-W13\<close>, \<open>dayDate\<close> prints the date of Saturday, \<open>Mar 29\<close>, for
  Saturday and for Sunday, and \<open>weekDateRange\<close> ends the week on \<open>Mar 29\<close>. In UTC the
  same week runs from \<open>Mar 24\<close> to \<open>Mar 30\<close>, as the specification has it.
\<close>

theorem week_days_azores:
  "weekRegex ''2025-W13'' \<and>
   map (dayDate Azores ''2025-W13'') days =
     [''Mar 24'', ''Mar 25'', ''Mar 26'', ''Mar 27'', ''Mar 28'', ''Mar 29'', ''Mar 29''] \<and>
   weekDateRange Azores ''2025-W13'' = ''Mar 24 - Mar 29'' \<and>
   map (civil \<circ> localDay Azores \<circ> targetDate Azores ''2025-W13'') days =
     [(2025, 3, 24), (2025, 3, 25), (2025, 3, 26), (2025, 3, 27), (2025, 3, 28), (2025, 3, 29),
      (2025, 3, 29)] \<and>
   map (localClock Azores \<circ> targetDate Azores ''2025-W13'') days =
     [0, 0, 0, 0, 0, 0, 23 * 3600] \<and>
   targetDate Azores ''2025-W13'' ''sunday'' = DateIn Azores 2025 3 30 0 \<and>
   DateIn Azores 2025 3 30 0 = 86400 * Date 2025 3 30 \<and>
   Azores (86400 * Date 2025 3 30) =
     (- 3600, 86400 * Date 2024 10 27 + 3600, 86400 * Date 2025 3 30 + 3600) \<and>
   Azores (86400 * Date 2025 3 30 + 3600) =
     (0, 86400 * Date 2025 3 30 + 3600, 86400 * Date 2025 10 26 + 3600) \<and>
   map (dayDate UTC ''2025-W13'') days =
     [''Mar 24'', ''Mar 25'', ''Mar 26'', ''Mar 27'', ''Mar 28'', ''Mar 29'', ''Mar 30''] \<and>
   weekDateRange UTC ''2025-W13'' = ''Mar 24 - Mar 30''"
proof -
  have k: "weekRegex ''2025-W13''"
    by code_simp
  have s: "scanWeek ''2025-W13'' = (2025, 13)"
    by code_simp
  have j: "DateIn Azores 2025 1 1 0 = 63871290000"
    by code_simp
  have l1: "localDay Azores 63871290000 = 739251" "localClock Azores 63871290000 = 0"
    by code_simp+
  have c1: "civil 739251 = (2025, 1, 1)"
    by code_simp
  have dm: "daysToMonday 739251 = - 2"
    by (simp add: daysToMonday_def Weekday_def)
  have f: "DateIn Azores 2025 1 (- 1) 0 = 63871117200"
    by code_simp
  have a: "AddDate Azores 63871290000 (- 2) = 63871117200"
    using AddDate_at[OF c1[folded l1(1)] l1(2), of "- 2" "- 1"] f by (simp add: wrap64_def)
  have l2: "localDay Azores 63871117200 = 739249" "localClock Azores 63871117200 = 0"
    by code_simp+
  have c2: "civil 739249 = (2024, 12, 30)"
    by code_simp
  have g: "DateIn Azores 2024 12 114 0 = 63878374800"
    by code_simp
  have b: "AddDate Azores 63871117200 84 = 63878374800"
    using AddDate_at[OF c2[folded l2(1)] l2(2), of 84 114] g by (simp add: wrap64_def)
  have w: "wrap64 ((13 - 1) * 7) = 84"
    by (simp add: wrap64_def)
  have m: "weekMonday Azores ''2025-W13'' = 63878374800"
    unfolding weekMonday_def s Let_def prod.case j l1 dm a w b ..
  have l3: "localDay Azores 63878374800 = 739333" "localClock Azores 63878374800 = 0"
    by code_simp+
  have c3: "civil 739333 = (2025, 3, 24)"
    by code_simp
  have h: "DateIn Azores 2025 3 24 0 = 63878374800" "DateIn Azores 2025 3 25 0 = 63878461200"
    "DateIn Azores 2025 3 26 0 = 63878547600" "DateIn Azores 2025 3 27 0 = 63878634000"
    "DateIn Azores 2025 3 28 0 = 63878720400" "DateIn Azores 2025 3 29 0 = 63878806800"
    "DateIn Azores 2025 3 30 0 = 63878889600"
    by code_simp+
  have ad: "AddDate Azores 63878374800 0 = 63878374800"
    "AddDate Azores 63878374800 1 = 63878461200" "AddDate Azores 63878374800 2 = 63878547600"
    "AddDate Azores 63878374800 3 = 63878634000" "AddDate Azores 63878374800 4 = 63878720400"
    "AddDate Azores 63878374800 5 = 63878806800" "AddDate Azores 63878374800 6 = 63878889600"
    using AddDate_at[OF c3[folded l3(1)] l3(2) refl] h by (simp_all add: wrap64_def)
  have "map (targetDate Azores ''2025-W13'') days =
      map (AddDate Azores 63878374800) (map dayOffsets days)"
    by (simp add: targetDate_def m comp_def)
  then have t: "map (targetDate Azores ''2025-W13'') days =
      [63878374800, 63878461200, 63878547600, 63878634000, 63878720400, 63878806800,
       63878889600]"
    unfolding dayOffsets_days by (simp add: ad)
  have su: "targetDate Azores ''2025-W13'' ''sunday'' = DateIn Azores 2025 3 30 0"
    using t by (simp add: days_def h)
  have ld: "map (localDay Azores)
      [63878374800, 63878461200, 63878547600, 63878634000, 63878720400, 63878806800,
       63878889600] = [739333, 739334, 739335, 739336, 739337, 739338, 739338]"
    by code_simp
  have lc: "map (localClock Azores)
      [63878374800, 63878461200, 63878547600, 63878634000, 63878720400, 63878806800,
       63878889600] = [0, 0, 0, 0, 0, 0, 23 * 3600]"
    by code_simp
  have cv: "map civil [739333, 739334, 739335, 739336, 739337, 739338, 739338] =
      [(2025, 3, 24), (2025, 3, 25), (2025, 3, 26), (2025, 3, 27), (2025, 3, 28), (2025, 3, 29),
       (2025, 3, 29)]"
    by code_simp
  have df: "map dateFormat [739333, 739334, 739335, 739336, 739337, 739338, 739338] =
      [''Mar 24'', ''Mar 25'', ''Mar 26'', ''Mar 27'', ''Mar 28'', ''Mar 29'', ''Mar 29'']"
    by code_simp
  have "map (dayDate Azores ''2025-W13'') days =
      map dateFormat (map (localDay Azores) (map (targetDate Azores ''2025-W13'') days))"
    by (simp add: dayDate_def Format_def comp_def)
  then have 1: "map (dayDate Azores ''2025-W13'') days =
      [''Mar 24'', ''Mar 25'', ''Mar 26'', ''Mar 27'', ''Mar 28'', ''Mar 29'', ''Mar 29'']"
    unfolding t ld df .
  have "weekDateRange Azores ''2025-W13'' =
      dateFormat (localDay Azores 63878374800) @ '' - '' @ dateFormat (localDay Azores 63878889600)"
    unfolding weekDateRange_def m Let_def Format_def ad ..
  then have 2: "weekDateRange Azores ''2025-W13'' = ''Mar 24 - Mar 29''"
    using ld df by simp
  have "map (civil \<circ> localDay Azores \<circ> targetDate Azores ''2025-W13'') days =
      map civil (map (localDay Azores) (map (targetDate Azores ''2025-W13'') days))"
    by (simp add: comp_def)
  then have 3: "map (civil \<circ> localDay Azores \<circ> targetDate Azores ''2025-W13'') days =
     [(2025, 3, 24), (2025, 3, 25), (2025, 3, 26), (2025, 3, 27), (2025, 3, 28), (2025, 3, 29),
      (2025, 3, 29)]"
    unfolding t ld cv .
  have "map (localClock Azores \<circ> targetDate Azores ''2025-W13'') days =
      map (localClock Azores) (map (targetDate Azores ''2025-W13'') days)"
    by (simp add: comp_def)
  then have 4: "map (localClock Azores \<circ> targetDate Azores ''2025-W13'') days =
     [0, 0, 0, 0, 0, 0, 23 * 3600]"
    unfolding t lc .
  have 5: "DateIn Azores 2025 3 30 0 = 86400 * Date 2025 3 30"
    by code_simp
  have 6: "Azores (86400 * Date 2025 3 30) =
     (- 3600, 86400 * Date 2024 10 27 + 3600, 86400 * Date 2025 3 30 + 3600)"
    by code_simp
  have 7: "Azores (86400 * Date 2025 3 30 + 3600) =
     (0, 86400 * Date 2025 3 30 + 3600, 86400 * Date 2025 10 26 + 3600)"
    by code_simp
  have u: "\<And>t. fst (UTC t) = 0"
    by (simp add: UTC_def)
  have n: "atoi (take 4 ''2025-W13'') = 2025" "atoi (drop 6 ''2025-W13'') = 13"
    by (simp_all add: atoi_def digit_val_def)
  have d1: "Date 2025 1 1 = 739251"
    by code_simp
  have du: "map dateFormat [739333, 739334, 739335, 739336, 739337, 739338, 739339] =
      [''Mar 24'', ''Mar 25'', ''Mar 26'', ''Mar 27'', ''Mar 28'', ''Mar 29'', ''Mar 30'']"
    by code_simp
  have 8: "map (dayDate UTC ''2025-W13'') days =
     [''Mar 24'', ''Mar 25'', ''Mar 26'', ''Mar 27'', ''Mar 28'', ''Mar 29'', ''Mar 30''] \<and>
     weekDateRange UTC ''2025-W13'' = ''Mar 24 - Mar 30''"
    using week_days_fixed_offset[of "''2025-W13''" UTC 0, OF k u] du
    unfolding Let_def n d1 dm by simp
  show ?thesis
    using k 1 2 3 4 su 5 6 7 8 by blast
qed

section \<open>Properties of the day resolver\<close>

lemma dateRegex_shape:
  "dateRegex s \<Longrightarrow> \<exists>y1 y2 y3 y4 m1 m2 d1 d2.
     s = [y1, y2, y3, y4, CHR ''-'', m1, m2, CHR ''-'', d1, d2] \<and>
     is_digit y1 \<and> is_digit y2 \<and> is_digit y3 \<and> is_digit y4 \<and> is_digit m1 \<and> is_digit m2 \<and>
     is_digit d1 \<and> is_digit d2"
  by (cases s rule: dateRegex.cases) simp_all

lemma digit_lower:
  assumes "is_digit c"
  shows "lower_char c = c"
proof -
  have "\<forall>d \<in> set ''0123456789''. lower_char d = d"
    by (simp add: lower_char_def)
  then show ?thesis
    using assms unfolding is_digit_def by blast
qed

lemma dash_lower: "lower_char (CHR ''-'') = CHR ''-''"
  by (simp add: lower_char_def)

lemma dateRegex_plain:
  assumes "dateRegex s"
  shows "ToLower (TrimSpace s) = s \<and> s \<noteq> ''today''"
proof -
  obtain y1 y2 y3 y4 m1 m2 d1 d2 where s: "s = [y1, y2, y3, y4, CHR ''-'', m1, m2, CHR ''-'', d1, d2]"
    and d: "is_digit y1" "is_digit y2" "is_digit y3" "is_digit y4" "is_digit m1" "is_digit m2"
      "is_digit d1" "is_digit d2"
    using dateRegex_shape[OF assms] by blast
  have "TrimSpace s = s"
    using d(1,8) by (intro TrimSpace_plain) (simp_all add: s digit_not_space)
  moreover have "ToLower s = s"
    using d by (simp add: s ToLower_def digit_lower dash_lower)
  ultimately show ?thesis by (simp add: s)
qed

lemma upto_0_6: "[0..6] = [0, 1, 2, 3, 4, 5, 6 :: int]"
  by (simp add: upto.simps)

lemma mod7_cases:
  fixes t :: int
  obtains "t mod 7 = 0" | "t mod 7 = 1" | "t mod 7 = 2" | "t mod 7 = 3" | "t mod 7 = 4"
    | "t mod 7 = 5" | "t mod 7 = 6"
proof -
  have "0 \<le> t mod 7" "t mod 7 \<le> 6" by simp_all
  then have "t mod 7 \<in> set [0..6]" by (simp only: set_upto atLeastAtMost_iff)
  then have "t mod 7 = 0 \<or> t mod 7 = 1 \<or> t mod 7 = 2 \<or> t mod 7 = 3 \<or> t mod 7 = 4 \<or>
      t mod 7 = 5 \<or> t mod 7 = 6"
    unfolding upto_0_6 by simp
  then show ?thesis by (elim disjE) (erule that)+
qed

lemma Weekday_mod: "Weekday t = (t mod 7 + 1) mod 7"
  by (simp add: Weekday_def mod_simps)

lemma weekday_name: "ToLower (weekdayString (Weekday t)) = days ! nat (t mod 7)"
  by (cases t rule: mod7_cases)
    (simp_all add: Weekday_mod weekdayString_def days_def ToLower_def lower_char_def)

lemma ISOWeek_thursday:
  "ISOWeek t = (let th = t - t mod 7 + 3; y = fst (absYear th)
                in (y, (th - Date y 1 1) div 7 + 1))"
proof -
  define th where "th = t - t mod 7 + 3"
  have d: "t + (if 4 - Weekday t = 4 then - 3 else 4 - Weekday t) = th"
    by (cases t rule: mod7_cases) (simp_all add: Weekday_mod th_def)
  obtain y yd where a: "absYear th = (y, yd)" by (cases "absYear th") auto
  have "daysSinceEpoch y + yd = th" using absYear_yday[OF a] by simp
  then have yd: "yd = th - Date y 1 1" by (simp add: Date_jan1)
  have "ISOWeek t = (y, yd div 7 + 1)"
    using a d by (simp add: ISOWeek_def Let_def)
  then show ?thesis
    unfolding Let_def th_def[symmetric] using a yd by simp
qed

lemma parseDay_dateRegex:
  assumes "dateRegex input"
  shows "parseDay now input =
     (case parseDate input of
        None \<Rightarrow> Inl (InvalidDate input)
      | Some t \<Rightarrow> Inr (weekKey (ISOWeek t), ToLower (weekdayString (Weekday t))))"
  using assms dateRegex_plain[OF assms] by (simp add: parseDay_def Let_def)

text \<open>
  C6: a token of the shape \<open>YYYY-MM-DD\<close> is read as a date. When the date is not real
  (the month is not in 1..12 or the day not in the month), the resolver fails with
  \<open>InvalidDate\<close>. Otherwise, with \<open>t\<close> the day count of the date, whose calendar date
  is the date of the token, the day is the name of the weekday of \<open>t\<close> (\<open>t mod 7\<close> counts
  from Monday) and the week key is the ISO week of \<open>t\<close>: its year is the year of the
  Thursday of the week of \<open>t\<close>, its number counts the weeks from the first of January
  of that year to that Thursday. \<open>"2025-02-10"\<close> resolves to Monday of 2025-W07, and
  \<open>"2025-02-32"\<close> is refused.
\<close>

theorem parseDay_date:
  assumes "dateRegex input"
  shows "(let year = atoi (take 4 input); month = atoi (take 2 (drop 5 input));
              day = atoi (take 2 (drop 8 input));
              real = validDate (year, nat month, day);
              t = Date year month day;
              thursday = t - t mod 7 + 3;
              isoYear = fst (absYear thursday)
          in parseDay now input =
               (if real
                then Inr (weekKey (isoYear, (thursday - Date isoYear 1 1) div 7 + 1),
                          days ! nat (t mod 7))
                else Inl (InvalidDate input)) \<and>
             (real \<longrightarrow> civil t = (year, nat month, day))) \<and>
         parseDay now ''2025-02-10'' = Inr (''2025-W07'', ''monday'') \<and>
         parseDay now ''2025-02-32'' = Inl (InvalidDate ''2025-02-32'')"
proof -
  define year where "year = atoi (take 4 input)"
  define month where "month = atoi (take 2 (drop 5 input))"
  define day where "day = atoi (take 2 (drop 8 input))"
  have g: "parseDay now input =
     (case parseDate input of
        None \<Rightarrow> Inl (InvalidDate input)
      | Some t \<Rightarrow> Inr (weekKey (ISOWeek t), days ! nat (t mod 7)))"
    using parseDay_dateRegex[OF assms] by (simp add: weekday_name split: option.splits)
  have e1: "parseDay now ''2025-02-10'' = Inr (''2025-W07'', ''monday'')"
    by code_simp
  have e2: "parseDay now ''2025-02-32'' = Inl (InvalidDate ''2025-02-32'')"
    by code_simp
  have m: "parseDay now input =
       (if validDate (year, nat month, day)
        then Inr (weekKey (ISOWeek (Date year month day)), days ! nat (Date year month day mod 7))
        else Inl (InvalidDate input))"
    unfolding g by (auto simp: parseDate_def Let_def validDate_def year_def month_def day_def)
  have c: "validDate (year, nat month, day) \<longrightarrow> civil (Date year month day) = (year, nat month, day)"
  proof
    assume a: "validDate (year, nat month, day)"
    then have "1 \<le> nat month" by (simp add: validDate_def)
    then have "int (nat month) = month" by linarith
    then show "civil (Date year month day) = (year, nat month, day)"
      using civil_Date[OF a] by simp
  qed
  show ?thesis
    using e1 e2 c
    unfolding Let_def year_def[symmetric] month_def[symmetric] day_def[symmetric] m
      ISOWeek_thursday
    by simp
qed

theorem parseDay_date_witness:
  "dateRegex ''2024-02-29'' \<and> parseDay 0 ''2024-02-29'' = Inr (''2024-W09'', ''thursday'') \<and>
   dateRegex ''2023-02-29'' \<and> parseDay 0 ''2023-02-29'' = Inl (InvalidDate ''2023-02-29'')"
proof -
  have k: "dateRegex ''2024-02-29''" "dateRegex ''2023-02-29''"
    by (simp_all add: is_digit_def)
  have f: "atoi (take 4 ''2024-02-29'') = 2024" "atoi (take 2 (drop 5 ''2024-02-29'')) = 2"
    "atoi (take 2 (drop 8 ''2024-02-29'')) = 29"
    "atoi (take 4 ''2023-02-29'') = 2023" "atoi (take 2 (drop 5 ''2023-02-29'')) = 2"
    "atoi (take 2 (drop 8 ''2023-02-29'')) = 29"
    by (simp_all add: atoi_def digit_val_def)
  have c: "validDate (2024, 2, 29)" "\<not> validDate (2023, 2, 29)"
    "Date 2024 2 29 = 738944" "absYear 738944 = (2024, 59)" "Date 2024 1 1 = 738885"
    "weekKey (2024, 9) = ''2024-W09''" "days ! 3 = ''thursday''"
    by code_simp+
  have a: "parseDay 0 ''2024-02-29'' = Inr (''2024-W09'', ''thursday'')"
    using parseDay_date[OF k(1), of 0] unfolding Let_def f by (simp add: c)
  have b: "parseDay 0 ''2023-02-29'' = Inl (InvalidDate ''2023-02-29'')"
    using parseDay_date[OF k(2), of 0] unfolding Let_def f by (simp add: c)
  show ?thesis using k a b by simp
qed

lemma days_facts:
  "\<forall>d \<in> set days. ToLower (TrimSpace d) = d \<and> d \<noteq> ''today'' \<and> \<not> dateRegex d \<and>
     \<not> HasPrefix d ''+'' \<and> dayMap d \<noteq> None \<and>
     ToLower (TrimSpace (CHR ''+'' # d)) = CHR ''+'' # d \<and> CHR ''+'' # d \<noteq> ''today'' \<and>
     \<not> dateRegex (CHR ''+'' # d)"
  by code_simp

lemma parseDay_dayname:
  assumes "d \<in> set days"
  shows "parseDay now d = Inr (weekKey (ISOWeek now), d)"
    and "parseDay now (CHR ''+'' # d) = Inr (weekKey (nextWeek (ISOWeek now)), d)"
proof -
  have f: "ToLower (TrimSpace d) = d" "d \<noteq> ''today''" "\<not> dateRegex d"
    "\<not> HasPrefix d ''+''" "dayMap d \<noteq> None"
    "ToLower (TrimSpace (CHR ''+'' # d)) = CHR ''+'' # d" "CHR ''+'' # d \<noteq> ''today''"
    "\<not> dateRegex (CHR ''+'' # d)"
    using days_facts assms by blast+
  show "parseDay now d = Inr (weekKey (ISOWeek now), d)"
    using f(2-5) unfolding parseDay_def Let_def f(1) by simp
  have h: "HasPrefix (CHR ''+'' # d) ''+''" by (simp add: HasPrefix_def)
  show "parseDay now (CHR ''+'' # d) = Inr (weekKey (nextWeek (ISOWeek now)), d)"
    using f(5,7,8) h unfolding parseDay_def Let_def f(6) by simp
qed

text \<open>
  C2: for each of the seven names \<open>d\<close>, \<open>d\<close> and \<open>+d\<close> resolve to the same day \<open>d\<close>; the
  week key of \<open>d\<close> is that of the current ISO week, the week key of \<open>+d\<close> that of its
  successor \<open>nextWeek\<close>, which after week 52 (and after week 53) is week 1 of the next
  year.
\<close>

theorem parseDay_plus_day:
  assumes "d \<in> set days"
  shows "parseDay now d = Inr (weekKey (ISOWeek now), d) \<and>
         parseDay now (CHR ''+'' # d) = Inr (weekKey (nextWeek (ISOWeek now)), d) \<and>
         nextWeek (year, isoWeek) = (if 52 \<le> isoWeek then (year + 1, 1) else (year, isoWeek + 1))"
  using parseDay_dayname[OF assms] by (simp add: nextWeek_def Let_def)

theorem parseDay_plus_day_witness:
  "''friday'' \<in> set days \<and>
   parseDay (Date 2026 11 2) ''friday'' = Inr (''2026-W45'', ''friday'') \<and>
   parseDay (Date 2026 11 2) ''+friday'' = Inr (''2026-W46'', ''friday'') \<and>
   parseDay (Date 2026 12 30) ''sunday'' = Inr (''2026-W53'', ''sunday'') \<and>
   parseDay (Date 2026 12 30) ''+sunday'' = Inr (''2027-W01'', ''sunday'')"
proof -
  have k: "''friday'' \<in> set days" "''sunday'' \<in> set days"
    by (simp_all add: days_def)
  have c: "ISOWeek (Date 2026 11 2) = (2026, 45)" "ISOWeek (Date 2026 12 30) = (2026, 53)"
    "weekKey (2026, 45) = ''2026-W45''" "weekKey (2026, 46) = ''2026-W46''"
    "weekKey (2026, 53) = ''2026-W53''" "weekKey (2027, 1) = ''2027-W01''"
    by code_simp+
  show ?thesis
    using k parseDay_plus_day[OF k(1), of "Date 2026 11 2" 2026 45]
      parseDay_plus_day[OF k(2), of "Date 2026 12 30" 2026 53]
    unfolding c by (simp add: c)
qed

lemma digit_char_inj:
  assumes "a < 10" "b < 10" "digit_char a = digit_char b"
  shows "a = b"
proof -
  have d: "distinct ''0123456789''" by simp
  have "a < length ''0123456789''" "b < length ''0123456789''" using assms by simp_all
  then show ?thesis
    using assms(3) nth_eq_iff_index_eq[OF d] unfolding digit_char_def by blast
qed

lemma digits_two:
  assumes "n < 100"
  shows "digits n = (if n < 10 then [digit_char n] else [digit_char (n div 10), digit_char (n mod 10)])"
proof (cases "n < 10")
  case True
  then show ?thesis by (subst digits.simps) simp
next
  case False
  have "n div 10 < 10" using assms by simp
  then have "digits (n div 10) = [digit_char (n div 10)]" by (subst digits.simps) simp
  then show ?thesis using False by (subst digits.simps) simp
qed

lemma fmt_02d_two:
  assumes "0 \<le> w" "w < 100"
  shows "fmt_02d w = [digit_char (nat w div 10), digit_char (nat w mod 10)]"
proof -
  have n: "nat w < 100" using assms by simp
  have z: "digit_char 0 = CHR ''0''" by (simp add: digit_char_def)
  show ?thesis
  proof (cases "w < 10")
    case True
    then have "nat w div 10 = 0" "nat w mod 10 = nat w" using assms by simp_all
    then show ?thesis
      using True assms digits_two[OF n] by (simp add: fmt_02d_def fmt_d_def z)
  next
    case False
    then show ?thesis
      using assms digits_two[OF n] by (simp add: fmt_02d_def fmt_d_def)
  qed
qed

lemma weekKey_not_53:
  assumes "1 \<le> w" "w \<le> 52"
  shows "weekKey (y, w) \<noteq> weekKey (y', 53)"
proof
  assume e: "weekKey (y, w) = weekKey (y', 53)"
  have a: "fmt_02d w = [digit_char (nat w div 10), digit_char (nat w mod 10)]"
    using assms by (intro fmt_02d_two) simp_all
  have b: "fmt_02d 53 = [digit_char 5, digit_char 3]"
    using fmt_02d_two[of 53] by simp
  have "(fmt_d y @ ''-W'') @ fmt_02d w = (fmt_d y' @ ''-W'') @ fmt_02d 53"
    using e by (simp add: weekKey_def)
  then have "fmt_02d w = fmt_02d 53"
    by (subst (asm) append_eq_append_conv) (simp_all add: a b)
  then have "digit_char (nat w div 10) = digit_char 5" "digit_char (nat w mod 10) = digit_char 3"
    unfolding a b by simp_all
  moreover have "nat w div 10 < 10" "nat w mod 10 < 10" using assms by simp_all
  ultimately have "nat w div 10 = 5" "nat w mod 10 = 3"
    using digit_char_inj[of "nat w div 10" 5] digit_char_inj[of "nat w mod 10" 3] by simp_all
  then have "nat w = 53" using div_mult_mod_eq[of "nat w" 10] by simp
  then show False using assms by simp
qed

lemma week_step_range:
  assumes "1 \<le> w" "w \<le> 53"
  shows "1 \<le> snd (nextWeek (y, w)) \<and> snd (nextWeek (y, w)) \<le> 52 \<and>
         1 \<le> snd (lastWeek (y, w)) \<and> snd (lastWeek (y, w)) \<le> 52"
  using assms by (simp add: nextWeek_def lastWeek_def Let_def)

text \<open>
  C10: the week key of a date token is the ISO week of the date, so its year can differ
  from the year of the token (\<open>"2024-12-30"\<close> is in 2025-W01) and its number can be 53
  (\<open>"2026-12-28"\<close> is in 2026-W53). The arithmetic on weeks never gives a week 53: the
  key of \<open>+d\<close> and the key of \<open>getWeek\<close> under the flag \<open>last\<close> or \<open>next\<close> have a number
  from 1 to 52, as have \<open>nextWeek\<close> and \<open>lastWeek\<close> of every week from 1 to 53, and a key
  with a number from 1 to 52 is not the key of a week 53.
\<close>

theorem iso_week_53:
  "parseDay now ''2024-12-30'' = Inr (''2025-W01'', ''monday'') \<and>
   parseDay now ''2026-12-28'' = Inr (''2026-W53'', ''monday'') \<and>
   (d \<in> set days \<longrightarrow>
      (\<exists>y w. parseDay now (CHR ''+'' # d) = Inr (weekKey (y, w), d) \<and> 1 \<le> w \<and> w \<le> 52)) \<and>
   (lastFlag \<or> nextFlag \<longrightarrow>
      (\<exists>y w. getWeek now [] lastFlag nextFlag = weekKey (y, w) \<and> 1 \<le> w \<and> w \<le> 52)) \<and>
   (1 \<le> w \<and> w \<le> 53 \<longrightarrow>
      1 \<le> snd (nextWeek (y, w)) \<and> snd (nextWeek (y, w)) \<le> 52 \<and>
      1 \<le> snd (lastWeek (y, w)) \<and> snd (lastWeek (y, w)) \<le> 52) \<and>
   (1 \<le> w \<and> w \<le> 52 \<longrightarrow> weekKey (y, w) \<noteq> weekKey (y', 53))"
proof -
  have e1: "parseDay now ''2024-12-30'' = Inr (''2025-W01'', ''monday'')"
    by code_simp
  have e2: "parseDay now ''2026-12-28'' = Inr (''2026-W53'', ''monday'')"
    by code_simp
  obtain cy cw where c: "ISOWeek now = (cy, cw)" by (cases "ISOWeek now") auto
  have r: "1 \<le> cw" "cw \<le> 53" using ISOWeek_range[OF c] by simp_all
  obtain ny nw where n: "nextWeek (cy, cw) = (ny, nw)" by (cases "nextWeek (cy, cw)") auto
  obtain ly lw where l: "lastWeek (cy, cw) = (ly, lw)" by (cases "lastWeek (cy, cw)") auto
  have nr: "1 \<le> nw" "nw \<le> 52" and lr: "1 \<le> lw" "lw \<le> 52"
    using week_step_range[OF r, of cy] n l by simp_all
  have p: "d \<in> set days \<longrightarrow>
      (\<exists>y w. parseDay now (CHR ''+'' # d) = Inr (weekKey (y, w), d) \<and> 1 \<le> w \<and> w \<le> 52)"
    using parseDay_dayname(2)[of d now] c n nr by auto
  have g: "lastFlag \<or> nextFlag \<longrightarrow>
      (\<exists>y w. getWeek now [] lastFlag nextFlag = weekKey (y, w) \<and> 1 \<le> w \<and> w \<le> 52)"
    using c n l nr lr by (auto simp: getWeek_def)
  show ?thesis
    using e1 e2 p g week_step_range[of w y] weekKey_not_53[of w y y'] by blast
qed

theorem iso_week_53_witness:
  "parseDay (Date 2026 12 30) ''today'' = Inr (''2026-W53'', ''wednesday'') \<and>
   getWeek (Date 2026 12 30) [] False False = ''2026-W53'' \<and>
   getWeek (Date 2026 12 30) [] False True = ''2027-W01'' \<and>
   getWeek (Date 2026 12 30) [] True False = ''2026-W52'' \<and>
   weekKey (2026, 52) \<noteq> weekKey (2026, 53)"
proof -
  have c: "parseDay (Date 2026 12 30) ''today'' = Inr (''2026-W53'', ''wednesday'')"
    "getWeek (Date 2026 12 30) [] False False = ''2026-W53''"
    "getWeek (Date 2026 12 30) [] False True = ''2027-W01''"
    "getWeek (Date 2026 12 30) [] True False = ''2026-W52''"
    by code_simp+
  show ?thesis
    using c iso_week_53[of "Date 2026 12 30" "''monday''" False True 52 2026 2026] by simp
qed

section \<open>Properties of the listing\<close>

lemma digit_val_nonneg: "0 \<le> digit_val c"
  by (simp add: digit_val_def)

lemma small_digit_less_9:
  assumes "is_digit c" "digit_val c \<le> 2"
  shows "c < CHR ''9''"
proof -
  have "\<forall>d \<in> set ''0123456789''. digit_val d \<le> 2 \<longrightarrow> d < CHR ''9''"
    by (simp add: digit_val_def less_char_def)
  then show ?thesis using assms unfolding is_digit_def by blast
qed

lemma realTime_before_sentinel:
  assumes "realTime t"
  shows "t < ''99:99''"
proof -
  have r: "timeRegex t" "length t = 5" "atoi (take 2 t) < 24"
    using assms by (simp_all add: realTime_def)
  obtain h1 h2 c m1 m2 where t: "t = [h1, h2, c, m1, m2]"
    using r(2) by (auto simp: length_Suc_conv eval_nat_numeral)
  have d: "is_digit h1" using r(1) by (simp add: t)
  have "10 * digit_val h1 + digit_val h2 < 24"
    using r(3) by (simp add: t atoi_def)
  then have "digit_val h1 \<le> 2"
    using digit_val_nonneg[of h2] by linarith
  then have "h1 < CHR ''9''" using d by (rule small_digit_less_9[rotated])
  then show ?thesis by (simp add: t)
qed

lemma lex_pair:
  fixes a c :: string and b d :: string
  shows "(a, b) \<le> (c, d) \<longleftrightarrow> a < c \<or> (a = c \<and> b \<le> d)"
  by (auto simp: less_eq_prod_def)

text \<open>
  C1: the blocks listed for a week and a day are the rows of that week and day, each as
  often as it is in the table, in ascending order of \<open>orderStart\<close> and, where that is
  equal, of \<open>CreatedAt\<close>. \<open>orderStart\<close> is the planned start when there is one, else the
  actual start when there is one, else \<open>99:99\<close>, which is greater than every real time
  of day. In the example of the specification (two planned blocks at 09:00 and 14:00,
  a note, then an unplanned block at 08:00, entered in this order) the lines come out
  as: unplanned, planned 09:00, planned 14:00, note.
\<close>

theorem dayBlocks_sorted:
  "mset (dayBlocks st week day) = mset (filter (\<lambda>b. Week b = week \<and> Day b = day) st) \<and>
   sorted_wrt (\<lambda>a b. orderStart a < orderStart b \<or>
                  (orderStart a = orderStart b \<and> CreatedAt a \<le> CreatedAt b))
     (dayBlocks st week day) \<and>
   orderStart b =
     (case PlannedStart b of
        Some p \<Rightarrow> p
      | None \<Rightarrow> (case ActualStart b of Some a \<Rightarrow> a | None \<Rightarrow> ''99:99'')) \<and>
   (realTime t \<longrightarrow> t < ''99:99'') \<and>
   (let now = Date 2025 2 5;
        st1 = fst (cmdAdd now ''2025-02-05 10:00:00'' ''aaaaaa'' []
                     [''monday'', ''09:00-10:00'', ''plan'', ''one''] []);
        st2 = fst (cmdAdd now ''2025-02-05 10:00:01'' ''bbbbbb'' []
                     [''monday'', ''14:00-15:00'', ''plan'', ''two''] st1);
        st3 = fst (cmdNote now ''2025-02-05 10:00:02'' ''cccccc'' []
                     [''monday'', ''a'', ''note''] st2);
        st4 = fst (cmdActual now ''2025-02-05 10:00:03'' ''dddddd'' True []
                     [''monday'', ''08:00-08:30'', ''unplanned''] st3)
    in map ID (dayBlocks st4 ''2025-W06'' ''monday'') =
         [''dddddd'', ''aaaaaa'', ''bbbbbb'', ''cccccc''] \<and>
       lsDay st4 ''2025-W06'' ''monday'' =
         [''  [dddddd] '' @ high_voltage @ '' 08:00-08:30             unplanned'',
          ''  [aaaaaa]   09:00-10:00             plan one'',
          ''  [bbbbbb]   14:00-15:00             plan two'',
          ''  '' @ bullet @ '' a note''])"
proof -
  have m: "mset (dayBlocks st week day) = mset (filter (\<lambda>b. Week b = week \<and> Day b = day) st)"
    by (simp add: dayBlocks_def)
  have "sorted (map (\<lambda>b. (orderStart b, CreatedAt b)) (dayBlocks st week day))"
    by (simp add: dayBlocks_def)
  then have "sorted_wrt (\<lambda>a b. (orderStart a, CreatedAt a) \<le> (orderStart b, CreatedAt b))
     (dayBlocks st week day)"
    by (simp only: sorted_map)
  then have s: "sorted_wrt (\<lambda>a b. orderStart a < orderStart b \<or>
                  (orderStart a = orderStart b \<and> CreatedAt a \<le> CreatedAt b))
     (dayBlocks st week day)"
    by (rule sorted_wrt_mono_rel[rotated]) (auto simp: less_eq_prod_def)
  have o: "orderStart b =
     (case PlannedStart b of
        Some p \<Rightarrow> p
      | None \<Rightarrow> (case ActualStart b of Some a \<Rightarrow> a | None \<Rightarrow> ''99:99''))"
    by (simp add: orderStart_def)
  have e: "(let now = Date 2025 2 5;
        st1 = fst (cmdAdd now ''2025-02-05 10:00:00'' ''aaaaaa'' []
                     [''monday'', ''09:00-10:00'', ''plan'', ''one''] []);
        st2 = fst (cmdAdd now ''2025-02-05 10:00:01'' ''bbbbbb'' []
                     [''monday'', ''14:00-15:00'', ''plan'', ''two''] st1);
        st3 = fst (cmdNote now ''2025-02-05 10:00:02'' ''cccccc'' []
                     [''monday'', ''a'', ''note''] st2);
        st4 = fst (cmdActual now ''2025-02-05 10:00:03'' ''dddddd'' True []
                     [''monday'', ''08:00-08:30'', ''unplanned''] st3)
    in map ID (dayBlocks st4 ''2025-W06'' ''monday'') =
         [''dddddd'', ''aaaaaa'', ''bbbbbb'', ''cccccc''] \<and>
       lsDay st4 ''2025-W06'' ''monday'' =
         [''  [dddddd] '' @ high_voltage @ '' 08:00-08:30             unplanned'',
          ''  [aaaaaa]   09:00-10:00             plan one'',
          ''  [bbbbbb]   14:00-15:00             plan two'',
          ''  '' @ bullet @ '' a note''])"
    by code_simp
  show ?thesis
    using m s o e realTime_before_sentinel[of t] by blast
qed

theorem dayBlocks_sorted_witness:
  "realTime ''23:59'' \<and> ''23:59'' < ''99:99'' \<and> realTime ''00:00'' \<and> ''00:00'' < ''99:99''"
  using dayBlocks_sorted[where t = "''23:59''"] dayBlocks_sorted[where t = "''00:00''"]
  by (simp add: realTime_def is_digit_def atoi_def digit_val_def)

text \<open>
  The parser accepts \<open>99:99\<close>, which is no time of day: a block planned at \<open>99:99\<close> is
  equal to the notes in the first key of the order.
\<close>

lemma sentinel_tie:
  "parseTimeRange ''99:99-99:99'' = Inr (''99:99'', ''99:99'') \<and> \<not> realTime ''99:99''"
  by code_simp

section \<open>Properties of the commands\<close>

lemma dbUpdate_absent:
  assumes "bid \<notin> ID ` set st"
  shows "dbUpdate f bid st = (st, 0)"
proof -
  have "\<forall>b \<in> set st. ID b \<noteq> bid" using assms by auto
  then have "map (\<lambda>b. if ID b = bid then f b else b) st = st"
    and "filter (\<lambda>b. ID b = bid) st = []"
    by (simp_all add: map_idI filter_empty_conv)
  then show ?thesis by (simp add: dbUpdate_def)
qed

lemma dbDelete_absent:
  assumes "bid \<notin> ID ` set st"
  shows "dbDelete bid st = (st, 0)"
proof -
  have "\<forall>b \<in> set st. ID b \<noteq> bid" using assms by auto
  then have "filter (\<lambda>b. ID b \<noteq> bid) st = st"
    and "filter (\<lambda>b. ID b = bid) st = []"
    by (simp_all add: filter_empty_conv)
  then show ?thesis by (simp add: dbDelete_def)
qed

text \<open>
  C9: when no row has the ID, \<open>rm\<close>, \<open>done\<close> and \<open>undone\<close> report \<open>NotFound\<close> and leave
  the table as it was. So does the recording of actual times when its time range
  parses; when it does not, the error of the parser is reported, and the table is as
  it was too. Every result is a value: nothing is undefined.
\<close>

theorem absent_id_not_found:
  assumes "bid \<notin> ID ` set st"
  shows "cmdRm [bid] st = (st, Inl (NotFound bid)) \<and>
         cmdDone [bid] st = (st, Inl (NotFound bid)) \<and>
         cmdUndone [bid] st = (st, Inl (NotFound bid)) \<and>
         cmdActual now ts newid False flagTag [bid, timeArg] st =
           (st, case parseTimeRange timeArg of
                  Inl err \<Rightarrow> Inl err
                | Inr r \<Rightarrow> Inl (NotFound bid))"
proof -
  have rm: "cmdRm [bid] st = (st, Inl (NotFound bid))"
    by (simp add: cmdRm_def dbDelete_absent[OF assms])
  have dn: "cmdDone [bid] st = (st, Inl (NotFound bid))"
    by (simp add: cmdDone_def dbUpdate_absent[OF assms])
  have un: "cmdUndone [bid] st = (st, Inl (NotFound bid))"
    by (simp add: cmdUndone_def dbUpdate_absent[OF assms])
  have ac: "cmdActualRecord [bid, timeArg] st =
           (st, case parseTimeRange timeArg of
                  Inl err \<Rightarrow> Inl err
                | Inr r \<Rightarrow> Inl (NotFound bid))"
  proof (cases "parseTimeRange timeArg")
    case (Inl err)
    then show ?thesis by (simp add: cmdActualRecord_def)
  next
    case (Inr r)
    then show ?thesis
      by (cases r) (simp add: cmdActualRecord_def dbUpdate_absent[OF assms])
  qed
  show ?thesis
    using rm dn un ac by (simp add: cmdActual_def)
qed

theorem absent_id_not_found_witness:
  "''zzzzzz'' \<notin> ID ` set [newRow ''aaaaaa'' ''2025-W06'' ''monday'' ''plan'' [] ''2025-02-05 10:00:00''] \<and>
   cmdRm [''zzzzzz''] [newRow ''aaaaaa'' ''2025-W06'' ''monday'' ''plan'' [] ''2025-02-05 10:00:00''] =
     ([newRow ''aaaaaa'' ''2025-W06'' ''monday'' ''plan'' [] ''2025-02-05 10:00:00''],
      Inl (NotFound ''zzzzzz'')) \<and>
   cmdActual 0 [] [] False [] [''zzzzzz'', ''9:00-10:00'']
       [newRow ''aaaaaa'' ''2025-W06'' ''monday'' ''plan'' [] ''2025-02-05 10:00:00''] =
     ([newRow ''aaaaaa'' ''2025-W06'' ''monday'' ''plan'' [] ''2025-02-05 10:00:00''],
      Inl (NotFound ''zzzzzz''))"
proof -
  let ?st = "[newRow ''aaaaaa'' ''2025-W06'' ''monday'' ''plan'' [] ''2025-02-05 10:00:00'']"
  have a: "''zzzzzz'' \<notin> ID ` set ?st"
    by (simp add: newRow_def)
  have p: "parseTimeRange ''9:00-10:00'' = Inr (''09:00'', ''10:00'')"
    by code_simp
  show ?thesis
    using a absent_id_not_found[OF a, of 0 "[]" "[]" "[]" "''9:00-10:00''"] by (simp add: p)
qed

lemma dbInsert_Some: "dbInsert b st = Some st' \<Longrightarrow> st' = st @ [b]"
  by (simp add: dbInsert_def split: if_splits)

lemma cmdActualUnplanned_row:
  assumes "cmdActualUnplanned now ts bid flagTag args st = (st', Inr msg)"
  shows "\<exists>b. st' = st @ [b] \<and> ID b = bid \<and> IsUnplanned b \<and> IsDone b \<and> \<not> IsNote b \<and>
             PlannedStart b = None \<and> ActualStart b \<noteq> None"
proof -
  obtain dayArg timeArg descArgs where d: "dayTimeArgs args = (dayArg, timeArg, descArgs)"
    by (cases "dayTimeArgs args") auto
  obtain desc tags where e: "extractTags ToLower (Join descArgs '' '') flagTag = (desc, tags)"
    by (cases "extractTags ToLower (Join descArgs '' '') flagTag") auto
  have n: "\<not> length args < 2"
    using assms by (auto simp: cmdActualUnplanned_def)
  obtain week day where pd: "parseDay now dayArg = Inr (week, day)"
    using assms n d by (cases "parseDay now dayArg") (auto simp: cmdActualUnplanned_def)
  obtain start end' where pt: "parseTimeRange timeArg = Inr (start, end')"
    using assms n d pd by (cases "parseTimeRange timeArg") (auto simp: cmdActualUnplanned_def)
  have l: "length descArgs \<noteq> 0"
    using assms n d pd pt by (auto simp: cmdActualUnplanned_def)
  define row where "row = (newRow bid week day desc tags ts)
      \<lparr>ActualStart := Some start, ActualEnd := Some end', IsUnplanned := True, IsDone := True\<rparr>"
  have c: "cmdActualUnplanned now ts bid flagTag args st =
      (case dbInsert row st of
         None \<Rightarrow> (st, Inl StoreError)
       | Some st' \<Rightarrow>
           (st', Inr (''['' @ bid @ ''] '' @ high_voltage @ '' Unplanned: '' @ day
                      @ '' '' @ start @ ''-'' @ end' @ '' '' @ desc @ tagStr tags)))"
    using n l by (simp add: cmdActualUnplanned_def d pd pt e row_def)
  have "dbInsert row st = Some st'"
    using assms unfolding c by (cases "dbInsert row st") auto
  then have "st' = st @ [row]" by (rule dbInsert_Some)
  moreover have "ID row = bid" "IsUnplanned row" "IsDone row" "\<not> IsNote row"
    "PlannedStart row = None" "ActualStart row \<noteq> None"
    by (simp_all add: row_def newRow_def)
  ultimately show ?thesis by blast
qed

lemma status_cases:
  "status b = (if IsUnplanned b then high_voltage else if IsDone b then check_mark else '' '')"
  by (simp add: status_def Let_def)

text \<open>
  C8: the line that \<open>wk ls\<close> prints for a block that is not a note carries, after the
  ID, the high voltage sign when the block is unplanned, done or not; else the check
  mark when it is done; else a blank. The lines of a day are these lines, for the
  blocks of the day in the order of the query. A block that \<open>wk actual --unplanned\<close>
  has created is unplanned and done, and its line carries the high voltage sign. The
  listing of a day with an unplanned block, a planned block that is done and a planned
  block that is not done is evaluated.
\<close>

theorem status_mark:
  "status b =
     (if IsUnplanned b then high_voltage else if IsDone b then check_mark else '' '') \<and>
   (cmdActual now ts bid True flagTag args st = (st', Inr msg) \<longrightarrow>
      (\<exists>r. st' = st @ [r] \<and> ID r = bid \<and> IsUnplanned r \<and> IsDone r \<and> \<not> IsNote r \<and>
           status r = high_voltage \<and>
           renderBlock r =
             ''  ['' @ bid @ ''] '' @ high_voltage @ '' '' @ padRight 23 (timeStr r) @ '' ''
             @ Description r @ lsTagStr r)) \<and>
   (\<not> IsNote b \<longrightarrow>
      renderBlock b =
        ''  ['' @ ID b @ ''] ''
        @ (if IsUnplanned b then high_voltage else if IsDone b then check_mark else '' '')
        @ '' '' @ padRight 23 (timeStr b) @ '' '' @ Description b @ lsTagStr b) \<and>
   lsDay st week day = map renderBlock (dayBlocks st week day) \<and>
   lsDay
     (fst (cmdActual (Date 2025 2 5) ''2025-02-05 10:00:03'' [] False []
             [''bbbbbb'', ''11:10-12:05'']
       (fst (cmdActual (Date 2025 2 5) ''2025-02-05 10:00:02'' ''cccccc'' True []
               [''monday'', ''08:00-08:30'', ''call'']
         (fst (cmdDone [''aaaaaa'']
           (fst (cmdAdd (Date 2025 2 5) ''2025-02-05 10:00:01'' ''bbbbbb'' []
                   [''monday'', ''11:00-12:00'', ''write'', ''#doc'']
             (fst (cmdAdd (Date 2025 2 5) ''2025-02-05 10:00:00'' ''aaaaaa'' []
                     [''monday'', ''09:00-10:00'', ''plan''] []))))))))))
     ''2025-W06'' ''monday'' =
   [''  [cccccc] '' @ high_voltage @ '' 08:00-08:30             call'',
    ''  [aaaaaa] '' @ check_mark @ '' 09:00-10:00             plan'',
    ''  [bbbbbb]   11:00-12:00 '' @ arrow @ '' 11:10-12:05 write #doc'']"
proof -
  have r: "\<And>b. \<not> IsNote b \<Longrightarrow>
      renderBlock b =
        ''  ['' @ ID b @ ''] ''
        @ (if IsUnplanned b then high_voltage else if IsDone b then check_mark else '' '')
        @ '' '' @ padRight 23 (timeStr b) @ '' '' @ Description b @ lsTagStr b"
    unfolding renderBlock_def status_cases by simp
  have c: "cmdActual now ts bid True flagTag args st = (st', Inr msg) \<longrightarrow>
      (\<exists>r. st' = st @ [r] \<and> ID r = bid \<and> IsUnplanned r \<and> IsDone r \<and> \<not> IsNote r \<and>
           status r = high_voltage \<and>
           renderBlock r =
             ''  ['' @ bid @ ''] '' @ high_voltage @ '' '' @ padRight 23 (timeStr r) @ '' ''
             @ Description r @ lsTagStr r)"
  proof
    assume "cmdActual now ts bid True flagTag args st = (st', Inr msg)"
    then have "cmdActualUnplanned now ts bid flagTag args st = (st', Inr msg)"
      by (simp add: cmdActual_def)
    then obtain row where w: "st' = st @ [row]" "ID row = bid" "IsUnplanned row" "IsDone row"
      "\<not> IsNote row"
      using cmdActualUnplanned_row[of now ts bid flagTag args st st' msg] by blast
    have "status row = high_voltage"
      using w(3) by (simp add: status_cases)
    moreover have "renderBlock row =
        ''  ['' @ bid @ ''] '' @ high_voltage @ '' '' @ padRight 23 (timeStr row) @ '' ''
        @ Description row @ lsTagStr row"
      using r[OF w(5)] w(2,3) by simp
    ultimately show "\<exists>r. st' = st @ [r] \<and> ID r = bid \<and> IsUnplanned r \<and> IsDone r \<and> \<not> IsNote r \<and>
        status r = high_voltage \<and>
        renderBlock r =
          ''  ['' @ bid @ ''] '' @ high_voltage @ '' '' @ padRight 23 (timeStr r) @ '' ''
          @ Description r @ lsTagStr r"
      using w by blast
  qed
  have e: "lsDay
     (fst (cmdActual (Date 2025 2 5) ''2025-02-05 10:00:03'' [] False []
             [''bbbbbb'', ''11:10-12:05'']
       (fst (cmdActual (Date 2025 2 5) ''2025-02-05 10:00:02'' ''cccccc'' True []
               [''monday'', ''08:00-08:30'', ''call'']
         (fst (cmdDone [''aaaaaa'']
           (fst (cmdAdd (Date 2025 2 5) ''2025-02-05 10:00:01'' ''bbbbbb'' []
                   [''monday'', ''11:00-12:00'', ''write'', ''#doc'']
             (fst (cmdAdd (Date 2025 2 5) ''2025-02-05 10:00:00'' ''aaaaaa'' []
                     [''monday'', ''09:00-10:00'', ''plan''] []))))))))))
     ''2025-W06'' ''monday'' =
   [''  [cccccc] '' @ high_voltage @ '' 08:00-08:30             call'',
    ''  [aaaaaa] '' @ check_mark @ '' 09:00-10:00             plan'',
    ''  [bbbbbb]   11:00-12:00 '' @ arrow @ '' 11:10-12:05 write #doc'']"
    by code_simp
  have l: "lsDay st week day = map renderBlock (dayBlocks st week day)"
    by (simp add: lsDay_def)
  show ?thesis
    using status_cases[of b] c r[of b] l e by blast
qed

theorem status_mark_witness:
  "(\<exists>r msg. cmdActual (Date 2025 2 5) ''2025-02-05 10:00:03'' ''dddddd'' True []
       [''monday'', ''08:00-08:30'', ''unplanned''] [] = ([r], Inr msg) \<and>
     IsUnplanned r \<and> IsDone r \<and> \<not> IsNote r \<and> status r = high_voltage \<and>
     renderBlock r =
       ''  [dddddd] '' @ high_voltage @ '' '' @ padRight 23 (timeStr r) @ '' ''
       @ Description r @ lsTagStr r \<and>
     lsDay [r] ''2025-W06'' ''monday'' = [renderBlock r])"
proof -
  obtain st' res where c: "cmdActual (Date 2025 2 5) ''2025-02-05 10:00:03'' ''dddddd'' True []
       [''monday'', ''08:00-08:30'', ''unplanned''] [] = (st', res)"
    by (cases "cmdActual (Date 2025 2 5) ''2025-02-05 10:00:03'' ''dddddd'' True []
       [''monday'', ''08:00-08:30'', ''unplanned''] []") auto
  have "isl (snd (cmdActual (Date 2025 2 5) ''2025-02-05 10:00:03'' ''dddddd'' True []
       [''monday'', ''08:00-08:30'', ''unplanned''] [])) = False"
    by code_simp
  then obtain msg where r: "res = Inr msg"
    using c by (cases res) auto
  have d: "map ID (dayBlocks (fst (cmdActual (Date 2025 2 5) ''2025-02-05 10:00:03'' ''dddddd''
       True [] [''monday'', ''08:00-08:30'', ''unplanned''] [])) ''2025-W06'' ''monday'') =
       [''dddddd'']"
    by code_simp
  obtain row where w: "st' = [row]" "ID row = ''dddddd''" "IsUnplanned row" "IsDone row"
    "\<not> IsNote row" "status row = high_voltage"
    "renderBlock row =
       ''  [dddddd] '' @ high_voltage @ '' '' @ padRight 23 (timeStr row) @ '' ''
       @ Description row @ lsTagStr row"
    using status_mark[of "hd st'" "Date 2025 2 5" "''2025-02-05 10:00:03''" "''dddddd''" "[]"
        "[''monday'', ''08:00-08:30'', ''unplanned'']" "[]" st' msg "[]" "[]",
        THEN conjunct2, THEN conjunct1] c r
    by auto
  have "length (dayBlocks [row] ''2025-W06'' ''monday'') = 1"
    using d unfolding c w(1) fst_conv by (metis length_map length_Cons list.size(3) One_nat_def)
  moreover have "set (dayBlocks [row] ''2025-W06'' ''monday'') \<subseteq> {row}"
    by (auto simp: dayBlocks_def)
  ultimately have "dayBlocks [row] ''2025-W06'' ''monday'' = [row]"
    by (cases "dayBlocks [row] ''2025-W06'' ''monday''") auto
  then have "lsDay [row] ''2025-W06'' ''monday'' = [renderBlock row]"
    by (simp add: lsDay_def)
  then show ?thesis
    using c r w by blast
qed

end
